theory Spec2Isabelle
  imports
    Main
    "HOL-Library.Sublist"
    "HOL-Library.Char_ord"
    "HOL-Library.List_Lexorder"
    "HOL-Library.Multiset"
begin

section \<open>The asset checker of check\_assets.py\<close>

text \<open>
  The script enumerates the files under \<open>assets/\<close>, the markdown files at the project
  root, the liquid templates under \<open>_includes/\<close> and \<open>_layouts/\<close> and the stylesheets
  under \<open>_sass/\<close>, and classifies each asset as used or unused by literal substring
  search of a few patterns in every source file.

  Strings are byte strings (\<open>string\<close>) holding text in UTF-8, where containment and
  order by bytes are containment and order by code points; \<open>pattern in content\<close> is
  \<^const>\<open>sublist\<close>.
  A path is the list of its components below the anchor; all paths of one run hang off
  the same anchor, so the anchor is left out.
\<close>

subsection \<open>Paths (pathlib)\<close>

type_synonym path = "string list"

datatype error = ValueError | FileNotFoundError | IsADirectoryError | PermissionError

text \<open>\<open>Path.parent\<close>: the path without its last component; the anchor is its own parent.\<close>

definition path_parent :: "path \<Rightarrow> path" where
  "path_parent p = butlast p"

text \<open>\<open>Path.name\<close>: the last component, the empty string when there is none.\<close>

definition path_name :: "path \<Rightarrow> string" where
  "path_name p = (if p = [] then [] else last p)"

text \<open>\<open>str.rfind('.')\<close>: the index of the last dot, \<open>None\<close> for Python's \<open>-1\<close>.\<close>

definition rfind_dot :: "string \<Rightarrow> nat option" where
  "rfind_dot s =
     (let k = length (takeWhile (\<lambda>c. c \<noteq> CHR ''.'') (rev s))
      in if k = length s then None else Some (length s - 1 - k))"

text \<open>
  \<open>Path.suffix\<close> and \<open>Path.stem\<close> (pathlib up to Python 3.13): with
  \<open>i = name.rfind('.')\<close>, the name is cut at \<open>i\<close> when \<open>0 < i < len(name) - 1\<close>;
  otherwise the suffix is empty and the stem is the whole name.
\<close>

definition path_suffix :: "path \<Rightarrow> string" where
  "path_suffix p =
     (let n = path_name p
      in case rfind_dot n of
           None \<Rightarrow> []
         | Some i \<Rightarrow> if 0 < i \<and> i < length n - 1 then drop i n else [])"

definition path_stem :: "path \<Rightarrow> string" where
  "path_stem p =
     (let n = path_name p
      in case rfind_dot n of
           None \<Rightarrow> n
         | Some i \<Rightarrow> if 0 < i \<and> i < length n - 1 then take i n else n)"

text \<open>\<open>str(path)\<close> of a relative path: the components joined by \<open>/\<close>, and \<open>.\<close> for none.\<close>

fun path_str :: "path \<Rightarrow> string" where
  "path_str [] = ''.''"
| "path_str [c] = c"
| "path_str (c # cs) = c @ ''/'' @ path_str cs"

text \<open>\<open>p.relative_to(other)\<close> raises \<open>ValueError\<close> unless \<open>other\<close> is a prefix of \<open>p\<close>.\<close>

definition relative_to :: "path \<Rightarrow> path \<Rightarrow> error + path" where
  "relative_to p other =
     (if prefix other p then Inr (drop (length other) p) else Inl ValueError)"

text \<open>
  \<open>str.lower()\<close> on the letters that matter here: \<open>A\<close>..\<open>Z\<close> go to \<open>a\<close>..\<open>z\<close>, every
  other byte stays. (No character outside ASCII lowers to a letter of the image
  extensions, so the membership test below reads the same on bytes.)
\<close>

definition lower_char :: "char \<Rightarrow> char" where
  "lower_char c =
     (if CHR ''A'' \<le> c \<and> c \<le> CHR ''Z'' then char_of (of_char c + (32::nat)) else c)"

definition lower :: "string \<Rightarrow> string" where
  "lower s = map lower_char s"

subsection \<open>The file system snapshot\<close>

text \<open>
  A node is a regular file (whether it can be opened for reading, and its bytes) or a
  directory (its entries in the order the operating system lists them). Symbolic links
  and special files are not part of a snapshot: on a tree that holds a dangling link
  below \<open>assets\<close> the script fails in \<open>stat\<close>, which no snapshot of this type shows.
  The statements below about a completed run therefore take the completion as a
  hypothesis; none derives it from the source files being readable.
\<close>

datatype node = File bool string | Dir "(string \<times> node) list"

fun is_dir :: "node \<Rightarrow> bool" where
  "is_dir (Dir es) = True"
| "is_dir (File r b) = False"

fun lookup :: "node \<Rightarrow> path \<Rightarrow> node option" where
  "lookup n [] = Some n"
| "lookup (File r b) (c # cs) = None"
| "lookup (Dir es) (c # cs) = (case map_of es c of None \<Rightarrow> None | Some n \<Rightarrow> lookup n cs)"

text \<open>In a directory of a real file system no two entries share a name.\<close>

fun wf_node :: "node \<Rightarrow> bool" where
  "wf_node (File r b) = True"
| "wf_node (Dir es) = (distinct (map fst es) \<and> (\<forall>e \<in> set es. wf_node (snd e)))"

text \<open>
  \<open>path.read_text(errors="ignore")\<close>: opening fails with an \<open>OSError\<close> when the path
  does not exist, is a directory or may not be read, and nothing in the script catches
  it. Decoding with \<open>errors="ignore"\<close> never raises: the codec \<open>dec\<close> (the locale's
  encoding, with undecodable bytes dropped) is a total function of the bytes.
\<close>

definition read_text :: "(string \<Rightarrow> string) \<Rightarrow> node \<Rightarrow> path \<Rightarrow> error + string" where
  "read_text dec fs p =
     (case lookup fs p of
        None \<Rightarrow> Inl FileNotFoundError
      | Some (Dir es) \<Rightarrow> Inl IsADirectoryError
      | Some (File r b) \<Rightarrow> if r then Inr (dec b) else Inl PermissionError)"

text \<open>
  \<open>path.stat().st_size\<close>: the number of bytes of a regular file. The script stats
  assets only, which the walk lists among the non-directories; for a directory, whose
  size is up to the file system, the model gives the number of entries.
\<close>

definition st_size :: "node \<Rightarrow> path \<Rightarrow> error + nat" where
  "st_size fs p =
     (case lookup fs p of
        None \<Rightarrow> Inl FileNotFoundError
      | Some (Dir es) \<Rightarrow> Inr (length es)
      | Some (File r b) \<Rightarrow> Inr (length b))"

subsection \<open>The text of a file\<close>

text \<open>
  \<open>read_text(errors="ignore")\<close> decodes with the locale's encoding; the codec below is
  UTF-8, the encoding of the usual locales and of Python's UTF-8 mode. Text is kept
  in UTF-8, so decoding leaves the well-formed sequences as they are and drops the
  rest, as CPython's decoder does: an invalid start byte is dropped alone; a lead byte
  whose continuation is wrong is dropped with the continuation bytes read so far, and
  decoding resumes at the wrong byte; a sequence cut off by the end of the data is
  dropped.
\<close>

definition continuation :: "char \<Rightarrow> bool" where
  "continuation c = (CHR 0x80 \<le> c \<and> c \<le> CHR 0xBF)"

text \<open>The second byte after the lead byte \<open>b\<close>: no overlong form, no surrogate, nothing
  beyond U+10FFFF.\<close>

definition second_ok :: "char \<Rightarrow> char \<Rightarrow> bool" where
  "second_ok b c =
     (if b = CHR 0xE0 then CHR 0xA0 \<le> c \<and> c \<le> CHR 0xBF
      else if b = CHR 0xED then CHR 0x80 \<le> c \<and> c \<le> CHR 0x9F
      else if b = CHR 0xF0 then CHR 0x90 \<le> c \<and> c \<le> CHR 0xBF
      else if b = CHR 0xF4 then CHR 0x80 \<le> c \<and> c \<le> CHR 0x8F
      else continuation c)"

fun utf8_ignore :: "string \<Rightarrow> string" where
  "utf8_ignore [] = []"
| "utf8_ignore (b # bs) =
     (if b < CHR 0x80 then b # utf8_ignore bs
      else if b < CHR 0xC2 \<or> CHR 0xF4 < b then utf8_ignore bs
      else (case bs of
              [] \<Rightarrow> []
            | c1 # bs1 \<Rightarrow>
                if \<not> second_ok b c1 then utf8_ignore bs
                else if b < CHR 0xE0 then b # c1 # utf8_ignore bs1
                else (case bs1 of
                        [] \<Rightarrow> []
                      | c2 # bs2 \<Rightarrow>
                          if \<not> continuation c2 then utf8_ignore bs1
                          else if b < CHR 0xF0 then b # c1 # c2 # utf8_ignore bs2
                          else (case bs2 of
                                  [] \<Rightarrow> []
                                | c3 # bs3 \<Rightarrow>
                                    if \<not> continuation c3 then utf8_ignore bs2
                                    else b # c1 # c2 # c3 # utf8_ignore bs3))))"

declare utf8_ignore.simps(2) [simp del]

text \<open>Text mode with universal newlines: \<open>\r\n\<close> and a lone \<open>\r\<close> are read as \<open>\n\<close>.\<close>

fun universal_newlines :: "string \<Rightarrow> string" where
  "universal_newlines [] = []"
| "universal_newlines [c] = [if c = CHR 0x0D then CHR 0x0A else c]"
| "universal_newlines (c # d # cs) =
     (if c = CHR 0x0D
      then (if d = CHR 0x0A then CHR 0x0A # universal_newlines cs
            else CHR 0x0A # universal_newlines (d # cs))
      else c # universal_newlines (d # cs))"

definition dec_utf8 :: "string \<Rightarrow> string" where
  "dec_utf8 b = universal_newlines (utf8_ignore b)"

subsection \<open>File enumerator\<close>

text \<open>
  \<open>os.walk(top)\<close>, top down: the non-directory entries of \<open>top\<close> first, then the walk of
  each subdirectory. A \<open>top\<close> that cannot be listed yields nothing (the error of
  \<open>scandir\<close> is ignored, \<open>onerror\<close> being \<open>None\<close>).
\<close>

fun walk_files :: "path \<Rightarrow> node \<Rightarrow> path list" where
  "walk_files dirpath (File r b) = []"
| "walk_files dirpath (Dir es) =
     map (\<lambda>e. dirpath @ [fst e]) (filter (\<lambda>e. \<not> is_dir (snd e)) es) @
     concat (map (\<lambda>e. walk_files (dirpath @ [fst e]) (snd e)) (filter (\<lambda>e. is_dir (snd e)) es))"

definition find_all_assets :: "node \<Rightarrow> path \<Rightarrow> path list" where
  "find_all_assets fs assets_dir =
     (case lookup fs assets_dir of None \<Rightarrow> [] | Some n \<Rightarrow> walk_files assets_dir n)"

text \<open>
  \<open>root_dir.glob("*.md")\<close>: the entries of the root, files and directories alike, whose
  name ends in \<open>.md\<close>.
\<close>

definition find_all_md_files :: "node \<Rightarrow> path \<Rightarrow> path list" where
  "find_all_md_files fs root_dir =
     (case lookup fs root_dir of
        Some (Dir es) \<Rightarrow> map (\<lambda>e. root_dir @ [fst e]) (filter (\<lambda>e. suffix ''.md'' (fst e)) es)
      | _ \<Rightarrow> [])"

text \<open>
  \<open>d.glob("**/*" + ext)\<close>: the entries of \<open>d\<close> whose name ends in \<open>ext\<close>, then those of
  each subdirectory, recursively.
\<close>

fun rglob :: "string \<Rightarrow> path \<Rightarrow> node \<Rightarrow> path list" where
  "rglob ext d (File r b) = []"
| "rglob ext d (Dir es) =
     map (\<lambda>e. d @ [fst e]) (filter (\<lambda>e. suffix ext (fst e)) es) @
     concat (map (\<lambda>e. rglob ext (d @ [fst e]) (snd e)) (filter (\<lambda>e. is_dir (snd e)) es))"

text \<open>\<open>root_dir.glob(sub + "/**/*" + ext)\<close>: nothing when \<open>root_dir/sub\<close> does not exist.\<close>

definition glob_under :: "node \<Rightarrow> path \<Rightarrow> string \<Rightarrow> string \<Rightarrow> path list" where
  "glob_under fs root_dir sub ext =
     (case lookup fs (root_dir @ [sub]) of
        None \<Rightarrow> []
      | Some n \<Rightarrow> rglob ext (root_dir @ [sub]) n)"

definition find_all_liquid_files :: "node \<Rightarrow> path \<Rightarrow> path list" where
  "find_all_liquid_files fs root_dir =
     glob_under fs root_dir ''_includes'' ''.liquid'' @
     glob_under fs root_dir ''_layouts'' ''.liquid''"

definition find_all_scss_files :: "node \<Rightarrow> path \<Rightarrow> path list" where
  "find_all_scss_files fs root_dir = glob_under fs root_dir ''_sass'' ''.scss''"

subsection \<open>Reference checker\<close>

definition image_suffixes :: "string list" where
  "image_suffixes = [''.png'', ''.jpg'', ''.jpeg'', ''.gif'', ''.svg'', ''.webp'']"

text \<open>The pattern list of an asset, given its path relative to the project root.\<close>

definition patterns :: "path \<Rightarrow> path \<Rightarrow> string list" where
  "patterns asset relative_path =
     [path_str relative_path, ''/'' @ path_str relative_path, path_name asset] @
     (if lower (path_suffix asset) \<in> set image_suffixes then [path_stem asset] else [])"

text \<open>
  The inner loop \<open>for pattern in patterns: if pattern in content: ...; break\<close>: whether
  the file gets recorded.
\<close>

fun first_match :: "string list \<Rightarrow> string \<Rightarrow> bool" where
  "first_match [] content = False"
| "first_match (p # ps) content = (if sublist p content then True else first_match ps content)"

text \<open>The name under which a file is recorded: markdown by name, the others by
  their path relative to the grandparent directory.\<close>

definition md_label :: "path \<Rightarrow> error + string" where
  "md_label f = Inr (path_name f)"

definition rel_label :: "path \<Rightarrow> error + string" where
  "rel_label f =
     (case relative_to f (path_parent (path_parent f)) of
        Inl e \<Rightarrow> Inl e
      | Inr r \<Rightarrow> Inr (path_str r))"

text \<open>One of the three outer loops: \<open>acc\<close> is the reference list of the category.\<close>

fun scan ::
  "(string \<Rightarrow> string) \<Rightarrow> node \<Rightarrow> (path \<Rightarrow> error + string) \<Rightarrow> string list \<Rightarrow>
   path list \<Rightarrow> string list \<Rightarrow> error + string list" where
  "scan dec fs label pats [] acc = Inr acc"
| "scan dec fs label pats (f # files) acc =
     (case read_text dec fs f of
        Inl e \<Rightarrow> Inl e
      | Inr content \<Rightarrow>
          if first_match pats content
          then (case label f of
                  Inl e \<Rightarrow> Inl e
                | Inr l \<Rightarrow> scan dec fs label pats files (acc @ [l]))
          else scan dec fs label pats files acc)"

record references =
  md :: "string list"
  liquid :: "string list"
  scss :: "string list"

definition check_asset_usage ::
  "(string \<Rightarrow> string) \<Rightarrow> node \<Rightarrow> path \<Rightarrow> path list \<Rightarrow> path list \<Rightarrow> path list \<Rightarrow> path \<Rightarrow>
   error + references" where
  "check_asset_usage dec fs asset md_files liquid_files scss_files assets_dir =
     (case relative_to asset (path_parent assets_dir) of
        Inl e \<Rightarrow> Inl e
      | Inr relative_path \<Rightarrow>
          (let pats = patterns asset relative_path in
           (case scan dec fs md_label pats md_files [] of
              Inl e \<Rightarrow> Inl e
            | Inr m \<Rightarrow>
                (case scan dec fs rel_label pats liquid_files [] of
                   Inl e \<Rightarrow> Inl e
                 | Inr l \<Rightarrow>
                     (case scan dec fs rel_label pats scss_files [] of
                        Inl e \<Rightarrow> Inl e
                      | Inr s \<Rightarrow> Inr \<lparr>md = m, liquid = l, scss = s\<rparr>)))))"

subsection \<open>Reporter\<close>

text \<open>\<open>any(refs.values())\<close>: some reference list is not empty.\<close>

definition has_refs :: "references \<Rightarrow> bool" where
  "has_refs refs = (md refs \<noteq> [] \<or> liquid refs \<noteq> [] \<or> scss refs \<noteq> [])"

text \<open>The classification loop of \<open>main\<close>, with its two accumulators.\<close>

fun classify ::
  "(string \<Rightarrow> string) \<Rightarrow> node \<Rightarrow> path list \<Rightarrow> path list \<Rightarrow> path list \<Rightarrow> path \<Rightarrow>
   path list \<Rightarrow> (path \<times> references) list \<Rightarrow> path list \<Rightarrow>
   error + (path \<times> references) list \<times> path list" where
  "classify dec fs mds liqs scs assets_dir [] used unused = Inr (used, unused)"
| "classify dec fs mds liqs scs assets_dir (asset # rest) used unused =
     (case check_asset_usage dec fs asset mds liqs scs assets_dir of
        Inl e \<Rightarrow> Inl e
      | Inr refs \<Rightarrow>
          if has_refs refs
          then classify dec fs mds liqs scs assets_dir rest (used @ [(asset, refs)]) unused
          else classify dec fs mds liqs scs assets_dir rest used (unused @ [asset]))"

text \<open>The summary of a used asset: per non-empty category, its first three references.\<close>

definition ref_summary :: "references \<Rightarrow> (string \<times> string list) list" where
  "ref_summary refs =
     (if md refs \<noteq> [] then [(''md'', take 3 (md refs))] else []) @
     (if liquid refs \<noteq> [] then [(''liquid'', take 3 (liquid refs))] else []) @
     (if scss refs \<noteq> [] then [(''scss'', take 3 (scss refs))] else [])"

fun used_report ::
  "path \<Rightarrow> (path \<times> references) list \<Rightarrow> error + (path \<times> (string \<times> string list) list) list" where
  "used_report assets_dir [] = Inr []"
| "used_report assets_dir ((asset, refs) # rest) =
     (case relative_to asset assets_dir of
        Inl e \<Rightarrow> Inl e
      | Inr rel_path \<Rightarrow>
          (case used_report assets_dir rest of
             Inl e \<Rightarrow> Inl e
           | Inr ls \<Rightarrow> Inr ((rel_path, ref_summary refs) # ls)))"

text \<open>The loop over the unused assets: the printed lines and the running \<open>total_size\<close>.\<close>

fun unused_report ::
  "node \<Rightarrow> path \<Rightarrow> path list \<Rightarrow> (path \<times> nat) list \<Rightarrow> nat \<Rightarrow> error + (path \<times> nat) list \<times> nat" where
  "unused_report fs assets_dir [] ls total_size = Inr (ls, total_size)"
| "unused_report fs assets_dir (asset # rest) ls total_size =
     (case relative_to asset assets_dir of
        Inl e \<Rightarrow> Inl e
      | Inr rel_path \<Rightarrow>
          (case st_size fs asset of
             Inl e \<Rightarrow> Inl e
           | Inr sz \<Rightarrow>
               unused_report fs assets_dir rest (ls @ [(rel_path, sz)]) (total_size + sz)))"

text \<open>
  What a run prints, as data: the four counts of the preamble, the two partitions with
  their lines, and the totals (\<open>len(unused_assets)\<close>, \<open>total_size\<close>, \<open>len(used_assets)\<close>).
\<close>

record report =
  found :: "nat \<times> nat \<times> nat \<times> nat"
  used_assets :: "(path \<times> references) list"
  unused_assets :: "path list"
  used_lines :: "(path \<times> (string \<times> string list) list) list"
  unused_lines :: "(path \<times> nat) list"
  total_unused :: "nat \<times> nat"
  total_used :: nat

definition main :: "(string \<Rightarrow> string) \<Rightarrow> node \<Rightarrow> path \<Rightarrow> error + report" where
  "main dec fs root_dir =
     (let assets_dir = root_dir @ [''assets''];
          assets = find_all_assets fs assets_dir;
          md_files = find_all_md_files fs root_dir;
          liquid_files = find_all_liquid_files fs root_dir;
          scss_files = find_all_scss_files fs root_dir
      in (case classify dec fs md_files liquid_files scss_files assets_dir (sort assets) [] [] of
            Inl e \<Rightarrow> Inl e
          | Inr (used, unused) \<Rightarrow>
              (case used_report assets_dir used of
                 Inl e \<Rightarrow> Inl e
               | Inr uls \<Rightarrow>
                   (case unused_report fs assets_dir unused [] 0 of
                      Inl e \<Rightarrow> Inl e
                    | Inr (nls, total_size) \<Rightarrow>
                        Inr \<lparr>found = (length assets, length md_files,
                                      length liquid_files, length scss_files),
                             used_assets = used,
                             unused_assets = unused,
                             used_lines = uls,
                             unused_lines = nls,
                             total_unused = (length unused, total_size),
                             total_used = length used\<rparr>))))"

subsection \<open>Notions used in the statements\<close>

text \<open>The label of a template or stylesheet: its last two components, joined.\<close>

definition rel_name :: "path \<Rightarrow> string" where
  "rel_name f = path_str (drop (length f - 2) f)"

text \<open>A path that \<open>read_text\<close> can open: a regular file with read permission.\<close>

definition readable :: "node \<Rightarrow> path \<Rightarrow> bool" where
  "readable fs f = (case lookup fs f of Some (File r b) \<Rightarrow> r | _ \<Rightarrow> False)"

text \<open>The file \<open>f\<close> can be read and its text contains one of the patterns.\<close>

definition matched :: "(string \<Rightarrow> string) \<Rightarrow> node \<Rightarrow> string list \<Rightarrow> path \<Rightarrow> bool" where
  "matched dec fs pats f =
     (case read_text dec fs f of Inl e \<Rightarrow> False | Inr content \<Rightarrow> first_match pats content)"

text \<open>The three categories of source files, with their enumerator, reference list and label.\<close>

datatype category = Md | Liquid | Scss

fun category_files :: "node \<Rightarrow> path \<Rightarrow> category \<Rightarrow> path list" where
  "category_files fs root_dir Md = find_all_md_files fs root_dir"
| "category_files fs root_dir Liquid = find_all_liquid_files fs root_dir"
| "category_files fs root_dir Scss = find_all_scss_files fs root_dir"

fun category_refs :: "category \<Rightarrow> references \<Rightarrow> string list" where
  "category_refs Md refs = md refs"
| "category_refs Liquid refs = liquid refs"
| "category_refs Scss refs = scss refs"

fun category_label :: "category \<Rightarrow> path \<Rightarrow> string" where
  "category_label Md f = path_name f"
| "category_label Liquid f = rel_name f"
| "category_label Scss f = rel_name f"

text \<open>The bytes of a regular file, for the sizes of the report.\<close>

definition file_bytes :: "node \<Rightarrow> path \<Rightarrow> string" where
  "file_bytes fs p = (case lookup fs p of Some (File r b) \<Rightarrow> b | _ \<Rightarrow> [])"

text \<open>
  The single pattern of the simplified checker: the stem for an asset with an image
  extension, the file name otherwise; and the checker that searches for it alone.
\<close>

definition key_pattern :: "path \<Rightarrow> string" where
  "key_pattern asset =
     (if lower (path_suffix asset) \<in> set image_suffixes then path_stem asset
      else path_name asset)"

definition check_asset_usage_key ::
  "(string \<Rightarrow> string) \<Rightarrow> node \<Rightarrow> path \<Rightarrow> path list \<Rightarrow> path list \<Rightarrow> path list \<Rightarrow>
   error + references" where
  "check_asset_usage_key dec fs asset md_files liquid_files scss_files =
     (let pats = [key_pattern asset] in
      (case scan dec fs md_label pats md_files [] of
         Inl e \<Rightarrow> Inl e
       | Inr m \<Rightarrow>
           (case scan dec fs rel_label pats liquid_files [] of
              Inl e \<Rightarrow> Inl e
            | Inr l \<Rightarrow>
                (case scan dec fs rel_label pats scss_files [] of
                   Inl e \<Rightarrow> Inl e
                 | Inr s \<Rightarrow> Inr \<lparr>md = m, liquid = l, scss = s\<rparr>))))"

subsection \<open>Example snapshots\<close>


text \<open>
  A small site under \<open>/site\<close>: three assets, two markdown files (one with an undecodable
  byte), one template, one stylesheet, and no \<open>_layouts\<close> directory.
\<close>

definition demo_fs :: node where
  "demo_fs = Dir [(''site'', Dir [
     (''assets'', Dir [
        (''img'', Dir [(''logo.png'', File True ''PNG''), (''old.PNG'', File True ''12345'')]),
        (''font.woff'', File True ''xy'')]),
     (''index.md'', File True ''![Logo](assets/img/logo.png) and OLD.png''),
     (''about.md'', File True (''lo'' @ [CHR 0xFF] @ ''go'')),
     (''_includes'', Dir [(''head'', Dir [(''meta.liquid'', File True ''href=/assets/font.woff'')])]),
     (''_sass'', Dir [(''base'', Dir [(''main.scss'', File True ''url(font.woff)'')])])])]"

text \<open>The same kind of site with a markdown file that may not be read.\<close>

definition locked_fs :: node where
  "locked_fs = Dir [(''site'', Dir [
     (''assets'', Dir [(''a.txt'', File True ''hello'')]),
     (''notes.md'', File False ''a.txt'')])]"

text \<open>A site where a directory is called \<open>drafts.md\<close>, which \<open>glob("*.md")\<close> lists.\<close>

definition dirmd_fs :: node where
  "dirmd_fs = Dir [(''site'', Dir [
     (''assets'', Dir [(''a.txt'', File True ''hello'')]),
     (''drafts.md'', Dir [])])]"

text \<open>What the run on \<open>demo_fs\<close> reports.\<close>

definition demo_report :: report where
  "demo_report =
     \<lparr>found = (3, 2, 1, 1),
      used_assets =
        [([''site'', ''assets'', ''font.woff''],
          \<lparr>md = [], liquid = [''head/meta.liquid''], scss = [''base/main.scss'']\<rparr>),
         ([''site'', ''assets'', ''img'', ''logo.png''],
          \<lparr>md = [''index.md'', ''about.md''], liquid = [], scss = []\<rparr>)],
      unused_assets = [[''site'', ''assets'', ''img'', ''old.PNG'']],
      used_lines =
        [([''font.woff''], [(''liquid'', [''head/meta.liquid'']), (''scss'', [''base/main.scss''])]),
         ([''img'', ''logo.png''], [(''md'', [''index.md'', ''about.md''])])],
      unused_lines = [([''img'', ''old.PNG''], 5)],
      total_unused = (1, 5),
      total_used = 2\<rparr>"

text \<open>A site that has only a markdown file: none of the four directories exists.\<close>

definition bare_fs :: node where
  "bare_fs = Dir [(''site'', Dir [(''index.md'', File True ''hello'')])]"

text \<open>A site with an asset and a markdown file, and no template or stylesheet directory.\<close>

definition plain_fs :: node where
  "plain_fs = Dir [(''site'', Dir [
     (''assets'', Dir [(''a.txt'', File True ''hello'')]),
     (''index.md'', File True ''see a.txt'')])]"

section \<open>Properties\<close>

subsection \<open>The scanning loops\<close>

lemma first_match_iff: "first_match pats c \<longleftrightarrow> (\<exists>p \<in> set pats. sublist p c)"
  by (induction pats) auto

lemma relative_to_grandparent:
  "relative_to f (path_parent (path_parent f)) = Inr (drop (length f - 2) f)"
proof -
  have "prefix (butlast (butlast f)) f"
    by (meson prefix_order.trans prefixeq_butlast)
  then show ?thesis
    by (simp add: relative_to_def path_parent_def numeral_2_eq_2)
qed

lemma rel_label_eq: "rel_label f = Inr (rel_name f)"
  by (simp add: rel_label_def rel_name_def relative_to_grandparent)

lemma read_text_readable: "(\<exists>c. read_text dec fs f = Inr c) \<longleftrightarrow> readable fs f"
  by (auto simp: read_text_def readable_def split: option.splits node.splits)

lemma matched_iff:
  "matched dec fs pats f \<longleftrightarrow>
     (\<exists>c. read_text dec fs f = Inr c \<and> (\<exists>p \<in> set pats. sublist p c))"
  by (auto simp: matched_def first_match_iff split: sum.splits)

lemma scan_Inr:
  assumes "\<And>f. label f = Inr (lab f)"
  shows "scan dec fs label pats files acc = Inr r \<longleftrightarrow>
         (\<forall>f \<in> set files. readable fs f) \<and>
         r = acc @ map lab (filter (matched dec fs pats) files)"
proof (induction files arbitrary: acc)
  case Nil
  then show ?case by auto
next
  case (Cons f files)
  show ?case
  proof (cases "read_text dec fs f")
    case (Inl e)
    then have "\<not> readable fs f" using read_text_readable[of dec fs f] by auto
    with Inl show ?thesis by simp
  next
    case (Inr c)
    then have "readable fs f" using read_text_readable[of dec fs f] by auto
    with Inr Cons[of "acc @ [lab f]"] Cons[of acc] show ?thesis
      by (simp add: assms matched_def)
  qed
qed

lemma check_asset_usage_Inr:
  "check_asset_usage dec fs asset mds liqs scs ad = Inr refs \<longleftrightarrow>
     prefix (path_parent ad) asset \<and>
     (\<forall>f \<in> set mds \<union> set liqs \<union> set scs. readable fs f) \<and>
     refs = (let pats = patterns asset (drop (length (path_parent ad)) asset) in
       \<lparr>md = map path_name (filter (matched dec fs pats) mds),
        liquid = map rel_name (filter (matched dec fs pats) liqs),
        scss = map rel_name (filter (matched dec fs pats) scs)\<rparr>)"
proof (cases "prefix (path_parent ad) asset")
  case False
  then show ?thesis by (simp add: check_asset_usage_def relative_to_def)
next
  case True
  define pats where "pats = patterns asset (drop (length (path_parent ad)) asset)"
  have m: "\<And>r. scan dec fs md_label pats mds [] = Inr r \<longleftrightarrow>
      (\<forall>f \<in> set mds. readable fs f) \<and> r = map path_name (filter (matched dec fs pats) mds)"
    using scan_Inr[of md_label path_name dec fs pats mds "[]"] by (simp add: md_label_def)
  have l: "\<And>r. scan dec fs rel_label pats liqs [] = Inr r \<longleftrightarrow>
      (\<forall>f \<in> set liqs. readable fs f) \<and> r = map rel_name (filter (matched dec fs pats) liqs)"
    using scan_Inr[of rel_label rel_name dec fs pats liqs "[]"] by (simp add: rel_label_eq)
  have s: "\<And>r. scan dec fs rel_label pats scs [] = Inr r \<longleftrightarrow>
      (\<forall>f \<in> set scs. readable fs f) \<and> r = map rel_name (filter (matched dec fs pats) scs)"
    using scan_Inr[of rel_label rel_name dec fs pats scs "[]"] by (simp add: rel_label_eq)
  have unf: "check_asset_usage dec fs asset mds liqs scs ad =
      (case scan dec fs md_label pats mds [] of
         Inl e \<Rightarrow> Inl e
       | Inr m \<Rightarrow>
           (case scan dec fs rel_label pats liqs [] of
              Inl e \<Rightarrow> Inl e
            | Inr l \<Rightarrow>
                (case scan dec fs rel_label pats scs [] of
                   Inl e \<Rightarrow> Inl e
                 | Inr s \<Rightarrow> Inr \<lparr>md = m, liquid = l, scss = s\<rparr>)))"
    using True unfolding pats_def by (simp add: check_asset_usage_def relative_to_def Let_def)
  have goal: "?thesis \<longleftrightarrow>
      (check_asset_usage dec fs asset mds liqs scs ad = Inr refs \<longleftrightarrow>
        ((\<forall>f \<in> set mds. readable fs f) \<and> (\<forall>f \<in> set liqs. readable fs f) \<and>
         (\<forall>f \<in> set scs. readable fs f)) \<and>
        refs = \<lparr>md = map path_name (filter (matched dec fs pats) mds),
                liquid = map rel_name (filter (matched dec fs pats) liqs),
                scss = map rel_name (filter (matched dec fs pats) scs)\<rparr>)"
    using True by (auto simp: Let_def pats_def)
  show ?thesis
  proof (cases "scan dec fs md_label pats mds []")
    case (Inl e)
    then have "check_asset_usage dec fs asset mds liqs scs ad = Inl e"
      by (simp add: unf)
    moreover from Inl m have "\<not> (\<forall>f \<in> set mds. readable fs f)" by auto
    ultimately show ?thesis unfolding goal by auto
  next
    case mr: (Inr mrefs)
    from m[of mrefs] mr have m': "(\<forall>f \<in> set mds. readable fs f)"
      "mrefs = map path_name (filter (matched dec fs pats) mds)" by auto
    show ?thesis
    proof (cases "scan dec fs rel_label pats liqs []")
      case (Inl e)
      with mr have "check_asset_usage dec fs asset mds liqs scs ad = Inl e"
        by (simp add: unf)
      moreover from Inl l have "\<not> (\<forall>f \<in> set liqs. readable fs f)" by auto
      ultimately show ?thesis unfolding goal by auto
    next
      case lr: (Inr lrefs)
      from l[of lrefs] lr have l': "(\<forall>f \<in> set liqs. readable fs f)"
        "lrefs = map rel_name (filter (matched dec fs pats) liqs)" by auto
      show ?thesis
      proof (cases "scan dec fs rel_label pats scs []")
        case (Inl e)
        with mr lr have "check_asset_usage dec fs asset mds liqs scs ad = Inl e"
          by (simp add: unf)
        moreover from Inl s have "\<not> (\<forall>f \<in> set scs. readable fs f)" by auto
        ultimately show ?thesis unfolding goal by auto
      next
        case sr: (Inr srefs)
        from s[of srefs] sr have s': "(\<forall>f \<in> set scs. readable fs f)"
          "srefs = map rel_name (filter (matched dec fs pats) scs)" by auto
        from mr lr sr have "check_asset_usage dec fs asset mds liqs scs ad =
            Inr \<lparr>md = mrefs, liquid = lrefs, scss = srefs\<rparr>"
          by (simp add: unf)
        with m' l' s' show ?thesis unfolding goal by auto
      qed
    qed
  qed
qed

subsection \<open>The classification loop and the report\<close>

lemma classify_Inr:
  "classify dec fs mds liqs scs ad xs used unused = Inr (u, n) \<longleftrightarrow>
     (\<forall>a \<in> set xs. \<exists>refs. check_asset_usage dec fs a mds liqs scs ad = Inr refs) \<and>
     u = used @ map (\<lambda>a. (a, projr (check_asset_usage dec fs a mds liqs scs ad)))
                  (filter (\<lambda>a. has_refs (projr (check_asset_usage dec fs a mds liqs scs ad))) xs) \<and>
     n = unused @ filter (\<lambda>a. \<not> has_refs (projr (check_asset_usage dec fs a mds liqs scs ad))) xs"
proof (induction xs arbitrary: used unused)
  case Nil
  then show ?case by auto
next
  case (Cons a xs)
  show ?case
  proof (cases "check_asset_usage dec fs a mds liqs scs ad")
    case (Inl e)
    then show ?thesis by auto
  next
    case (Inr refs)
    then show ?thesis
      using Cons[of "used @ [(a, refs)]" unused] Cons[of used "unused @ [a]"]
      by (cases "has_refs refs") auto
  qed
qed

lemma unused_report_Inr:
  "unused_report fs ad xs ls t = Inr (ls', t') \<longleftrightarrow>
     (\<forall>a \<in> set xs. prefix ad a \<and> (\<exists>k. st_size fs a = Inr k)) \<and>
     ls' = ls @ map (\<lambda>a. (drop (length ad) a, projr (st_size fs a))) xs \<and>
     t' = t + sum_list (map (\<lambda>a. projr (st_size fs a)) xs)"
proof (induction xs arbitrary: ls t)
  case Nil
  then show ?case by auto
next
  case (Cons a xs)
  show ?case
  proof (cases "prefix ad a")
    case False
    then show ?thesis by (simp add: relative_to_def)
  next
    case True
    show ?thesis
    proof (cases "st_size fs a")
      case (Inl e)
      with True show ?thesis by (simp add: relative_to_def)
    next
      case (Inr k)
      with True Cons[of "ls @ [(drop (length ad) a, k)]" "t + k"] show ?thesis
        by (auto simp: relative_to_def)
    qed
  qed
qed

lemma main_Inr:
  assumes "main dec fs root_dir = Inr rep"
  shows "classify dec fs (find_all_md_files fs root_dir) (find_all_liquid_files fs root_dir)
           (find_all_scss_files fs root_dir) (root_dir @ [''assets''])
           (sort (find_all_assets fs (root_dir @ [''assets'']))) [] [] =
         Inr (used_assets rep, unused_assets rep)"
    and "unused_report fs (root_dir @ [''assets'']) (unused_assets rep) [] 0 =
         Inr (unused_lines rep, snd (total_unused rep))"
    and "fst (total_unused rep) = length (unused_assets rep)"
    and "total_used rep = length (used_assets rep)"
  using assms
  by (auto simp: main_def Let_def split: sum.splits prod.splits)

subsection \<open>The enumerators\<close>

lemma lookup_append:
  "lookup fs (d @ p) = (case lookup fs d of None \<Rightarrow> None | Some n \<Rightarrow> lookup n p)"
  by (induction fs d rule: lookup.induct) (auto split: option.splits)

lemma wf_node_entry: "wf_node (Dir es) \<Longrightarrow> e \<in> set es \<Longrightarrow> map_of es (fst e) = Some (snd e)"
  by (cases e) simp

lemma wf_node_lookup: "wf_node fs \<Longrightarrow> lookup fs d = Some n \<Longrightarrow> wf_node n"
proof (induction fs d rule: lookup.induct)
  case (1 n)
  then show ?case by simp
next
  case (2 r b c cs)
  then show ?case by simp
next
  case (3 es c cs)
  from "3.prems"(2) obtain x where x: "map_of es c = Some x" "lookup x cs = Some n"
    by (auto split: option.splits)
  then have "(c, x) \<in> set es" by (simp add: map_of_SomeD)
  with "3.prems"(1) have "wf_node x" by auto
  with "3.IH" x show ?case by simp
qed

lemma walk_files_under:
  "a \<in> set (walk_files d n) \<Longrightarrow> strict_prefix d a"
proof (induction d n arbitrary: a rule: walk_files.induct)
  case (1 dirpath r b)
  then show ?case by simp
next
  case (2 dirpath es)
  from "2.prems" consider
      (leaf) e where "e \<in> set es" "a = dirpath @ [fst e]"
    | (below) e where "e \<in> set es" "is_dir (snd e)" "a \<in> set (walk_files (dirpath @ [fst e]) (snd e))"
    by auto
  then show ?case
  proof cases
    case leaf
    then show ?thesis by (simp add: strict_prefix_def)
  next
    case below
    then have "strict_prefix (dirpath @ [fst e]) a"
      using "2.IH"[of e a] by simp
    then show ?thesis
      by (meson prefix_order.dual_order.strict_trans strict_prefixI' strict_prefix_def prefixI
          prefix_order.le_less_trans)
  qed
qed

lemma walk_files_regular:
  "wf_node n \<Longrightarrow> a \<in> set (walk_files d n) \<Longrightarrow>
     \<exists>rel r b. a = d @ rel \<and> lookup n rel = Some (File r b)"
proof (induction d n arbitrary: a rule: walk_files.induct)
  case (1 dirpath r b)
  then show ?case by simp
next
  case (2 dirpath es)
  from "2.prems"(2) consider
      (leaf) e where "e \<in> set es" "\<not> is_dir (snd e)" "a = dirpath @ [fst e]"
    | (below) e where "e \<in> set es" "is_dir (snd e)" "a \<in> set (walk_files (dirpath @ [fst e]) (snd e))"
    by auto
  then show ?case
  proof cases
    case leaf
    from leaf(2) obtain r b where "snd e = File r b" by (cases "snd e") auto
    moreover have "map_of es (fst e) = Some (snd e)"
      using wf_node_entry[OF "2.prems"(1) leaf(1)] .
    ultimately have "lookup (Dir es) [fst e] = Some (File r b)" by simp
    with leaf(3) show ?thesis by blast
  next
    case below
    from "2.prems"(1) below(1) have "wf_node (snd e)" by auto
    with "2.IH"[of e a] below obtain rel r b where
      rel: "a = (dirpath @ [fst e]) @ rel" "lookup (snd e) rel = Some (File r b)"
      by auto
    have "map_of es (fst e) = Some (snd e)"
      using wf_node_entry[OF "2.prems"(1) below(1)] .
    with rel(2) have "lookup (Dir es) (fst e # rel) = Some (File r b)" by simp
    with rel(1) show ?thesis by (metis append.assoc append_Cons append_Nil)
  qed
qed

lemma find_all_assets_under:
  "a \<in> set (find_all_assets fs d) \<Longrightarrow> strict_prefix d a"
  by (auto simp: find_all_assets_def dest: walk_files_under split: option.splits)

lemma find_all_assets_regular:
  assumes "wf_node fs" and "a \<in> set (find_all_assets fs d)"
  shows "\<exists>r b. lookup fs a = Some (File r b)"
proof -
  from assms(2) obtain n where n: "lookup fs d = Some n" "a \<in> set (walk_files d n)"
    by (cases "lookup fs d") (auto simp: find_all_assets_def)
  from wf_node_lookup[OF assms(1) n(1)] have "wf_node n" .
  from walk_files_regular[OF this n(2)] obtain rel r b where
    "a = d @ rel" "lookup n rel = Some (File r b)" by blast
  with n(1) show ?thesis by (simp add: lookup_append)
qed

lemma path_parent_snoc [simp]: "path_parent (d @ [c]) = d"
  by (simp add: path_parent_def)

subsection \<open>Categories and sizes\<close>

lemma category_files_cases:
  "(\<forall>cat. \<forall>f \<in> set (category_files fs root_dir cat). P f) \<longleftrightarrow>
     (\<forall>f \<in> set (find_all_md_files fs root_dir) \<union> set (find_all_liquid_files fs root_dir) \<union>
        set (find_all_scss_files fs root_dir). P f)"
proof
  assume a: "\<forall>cat. \<forall>f \<in> set (category_files fs root_dir cat). P f"
  from a[rule_format, of _ Md] a[rule_format, of _ Liquid] a[rule_format, of _ Scss]
  show "\<forall>f \<in> set (find_all_md_files fs root_dir) \<union> set (find_all_liquid_files fs root_dir) \<union>
        set (find_all_scss_files fs root_dir). P f"
    by auto
next
  assume b: "\<forall>f \<in> set (find_all_md_files fs root_dir) \<union> set (find_all_liquid_files fs root_dir) \<union>
        set (find_all_scss_files fs root_dir). P f"
  show "\<forall>cat. \<forall>f \<in> set (category_files fs root_dir cat). P f"
  proof (intro allI ballI)
    fix cat f
    assume "f \<in> set (category_files fs root_dir cat)"
    with b show "P f" by (cases cat) auto
  qed
qed

lemma st_size_regular:
  "lookup fs a = Some (File r b) \<Longrightarrow> st_size fs a = Inr (length (file_bytes fs a))"
  by (simp add: st_size_def file_bytes_def)

subsection \<open>The pattern list\<close>

lemma stem_suffix_name: "path_stem asset @ path_suffix asset = path_name asset"
  by (simp add: path_stem_def path_suffix_def Let_def split: option.splits)

text \<open>
  C3. When the checker returns for an asset, the asset lies below the project root
  (the parent of the assets directory) and the patterns it searched, in every one of
  the three scans, are built from the path \<open>rel\<close> of the asset relative to that root:
  \<open>rel\<close> as a string, the same with a leading \<open>/\<close>, and the file name; the file name
  without its extension (the stem, which with the extension makes up the name) is
  the fourth pattern exactly when the extension, lowered, is one of
  \<open>.png .jpg .jpeg .gif .svg .webp\<close>.
\<close>

theorem patterns_exact:
  assumes "check_asset_usage dec fs asset md_files liquid_files scss_files assets_dir = Inr refs"
  shows "\<exists>rel. asset = path_parent assets_dir @ rel \<and>
     patterns asset rel =
       [path_str rel, CHR ''/'' # path_str rel, path_name asset] @
       (if lower (path_suffix asset) \<in>
             {''.png'', ''.jpg'', ''.jpeg'', ''.gif'', ''.svg'', ''.webp''}
        then [path_stem asset] else []) \<and>
     path_stem asset @ path_suffix asset = path_name asset \<and>
     scan dec fs md_label (patterns asset rel) md_files [] = Inr (md refs) \<and>
     scan dec fs rel_label (patterns asset rel) liquid_files [] = Inr (liquid refs) \<and>
     scan dec fs rel_label (patterns asset rel) scss_files [] = Inr (scss refs)"
proof -
  let ?root = "path_parent assets_dir"
  let ?rel = "drop (length ?root) asset"
  from assms have p: "prefix ?root asset"
    by (simp add: check_asset_usage_Inr)
  then have a: "asset = ?root @ ?rel"
    by (metis append_eq_conv_conj prefix_def)
  from p have r: "relative_to asset ?root = Inr ?rel"
    by (simp add: relative_to_def)
  have "scan dec fs md_label (patterns asset ?rel) md_files [] = Inr (md refs) \<and>
      scan dec fs rel_label (patterns asset ?rel) liquid_files [] = Inr (liquid refs) \<and>
      scan dec fs rel_label (patterns asset ?rel) scss_files [] = Inr (scss refs)"
    using assms unfolding check_asset_usage_def r sum.case Let_def
    by (auto split: sum.splits)
  moreover have "patterns asset ?rel =
       [path_str ?rel, CHR ''/'' # path_str ?rel, path_name asset] @
       (if lower (path_suffix asset) \<in>
             {''.png'', ''.jpg'', ''.jpeg'', ''.gif'', ''.svg'', ''.webp''}
        then [path_stem asset] else [])"
    by (simp add: patterns_def image_suffixes_def)
  ultimately show ?thesis using a stem_suffix_name[of asset] by blast
qed

theorem patterns_exact_witness:
  "check_asset_usage dec_utf8 demo_fs [''site'', ''assets'', ''img'', ''old.PNG'']
     [[''site'', ''index.md''], [''site'', ''about.md'']] [] [] [''site'', ''assets''] =
     Inr \<lparr>md = [], liquid = [], scss = []\<rparr> \<and>
   patterns [''site'', ''assets'', ''img'', ''old.PNG''] [''assets'', ''img'', ''old.PNG''] =
     [''assets/img/old.PNG'', ''/assets/img/old.PNG'', ''old.PNG'', ''old''] \<and>
   check_asset_usage dec_utf8 demo_fs [''site'', ''assets'', ''font.woff'']
     [[''site'', ''index.md'']] [] [[''site'', ''_sass'', ''base'', ''main.scss'']]
     [''site'', ''assets''] =
     Inr \<lparr>md = [], liquid = [], scss = [''base/main.scss'']\<rparr> \<and>
   patterns [''site'', ''assets'', ''font.woff''] [''assets'', ''font.woff''] =
     [''assets/font.woff'', ''/assets/font.woff'', ''font.woff''] \<and>
   scan dec_utf8 demo_fs rel_label [''assets/font.woff'', ''/assets/font.woff'', ''font.woff'']
     [[''site'', ''_sass'', ''base'', ''main.scss'']] [] = Inr [''base/main.scss'']"
proof -
  let ?old = "[''site'', ''assets'', ''img'', ''old.PNG'']"
  let ?font = "[''site'', ''assets'', ''font.woff'']"
  have h1: "check_asset_usage dec_utf8 demo_fs ?old
     [[''site'', ''index.md''], [''site'', ''about.md'']] [] [] [''site'', ''assets''] =
     Inr \<lparr>md = [], liquid = [], scss = []\<rparr>"
    by code_simp
  have h2: "check_asset_usage dec_utf8 demo_fs ?font
     [[''site'', ''index.md'']] [] [[''site'', ''_sass'', ''base'', ''main.scss'']]
     [''site'', ''assets''] =
     Inr \<lparr>md = [], liquid = [], scss = [''base/main.scss'']\<rparr>"
    by code_simp
  have root: "path_parent [''site'', ''assets''] = [''site'']"
    by code_simp
  have e1: "lower (path_suffix ?old) = ''.png''"
    "path_str [''assets'', ''img'', ''old.PNG''] = ''assets/img/old.PNG''"
    "path_name ?old = ''old.PNG''" "path_stem ?old = ''old''"
    by code_simp+
  have e2: "lower (path_suffix ?font) = ''.woff''"
    "path_str [''assets'', ''font.woff''] = ''assets/font.woff''"
    "path_name ?font = ''font.woff''"
    by code_simp+
  from patterns_exact[OF h1] obtain rel1 where
    r1: "?old = path_parent [''site'', ''assets''] @ rel1"
    and p1: "patterns ?old rel1 =
       [path_str rel1, CHR ''/'' # path_str rel1, path_name ?old] @
       (if lower (path_suffix ?old) \<in>
             {''.png'', ''.jpg'', ''.jpeg'', ''.gif'', ''.svg'', ''.webp''}
        then [path_stem ?old] else [])"
    by blast
  from r1 have "rel1 = [''assets'', ''img'', ''old.PNG'']"
    unfolding root by simp
  with p1 have P1: "patterns ?old [''assets'', ''img'', ''old.PNG''] =
      [''assets/img/old.PNG'', ''/assets/img/old.PNG'', ''old.PNG'', ''old'']"
    unfolding e1 by simp
  from patterns_exact[OF h2] obtain rel2 where
    r2: "?font = path_parent [''site'', ''assets''] @ rel2"
    and p2: "patterns ?font rel2 =
       [path_str rel2, CHR ''/'' # path_str rel2, path_name ?font] @
       (if lower (path_suffix ?font) \<in>
             {''.png'', ''.jpg'', ''.jpeg'', ''.gif'', ''.svg'', ''.webp''}
        then [path_stem ?font] else [])"
    and s2: "scan dec_utf8 demo_fs rel_label (patterns ?font rel2)
       [[''site'', ''_sass'', ''base'', ''main.scss'']] [] =
       Inr (scss \<lparr>md = [], liquid = [], scss = [''base/main.scss'']\<rparr>)"
    by blast
  from r2 have rel2: "rel2 = [''assets'', ''font.woff'']"
    unfolding root by simp
  with p2 have P2: "patterns ?font [''assets'', ''font.woff''] =
      [''assets/font.woff'', ''/assets/font.woff'', ''font.woff'']"
    unfolding e2 by simp
  from s2 have "scan dec_utf8 demo_fs rel_label
      [''assets/font.woff'', ''/assets/font.woff'', ''font.woff'']
      [[''site'', ''_sass'', ''base'', ''main.scss'']] [] = Inr [''base/main.scss'']"
    unfolding rel2 P2 by simp
  with h1 h2 P1 P2 show ?thesis by blast
qed

subsection \<open>One entry per matching file\<close>

text \<open>
  C4. When the checker returns, each reference list holds, in the order of the files,
  the label of every file of its category whose text contains some pattern, once per
  file however many patterns it contains; a match in one file does not end the scan
  of the files after it.
\<close>

theorem each_file_recorded_once:
  assumes "check_asset_usage dec fs asset md_files liquid_files scss_files assets_dir = Inr refs"
  shows "\<exists>rel. relative_to asset (path_parent assets_dir) = Inr rel \<and>
     md refs = map path_name (filter (matched dec fs (patterns asset rel)) md_files) \<and>
     liquid refs = map rel_name (filter (matched dec fs (patterns asset rel)) liquid_files) \<and>
     scss refs = map rel_name (filter (matched dec fs (patterns asset rel)) scss_files) \<and>
     length (md refs) \<le> length md_files \<and>
     length (liquid refs) \<le> length liquid_files \<and>
     length (scss refs) \<le> length scss_files"
proof -
  from assms have p: "prefix (path_parent assets_dir) asset"
    and r: "refs = (let pats = patterns asset (drop (length (path_parent assets_dir)) asset) in
       \<lparr>md = map path_name (filter (matched dec fs pats) md_files),
        liquid = map rel_name (filter (matched dec fs pats) liquid_files),
        scss = map rel_name (filter (matched dec fs pats) scss_files)\<rparr>)"
    by (simp_all add: check_asset_usage_Inr)
  from p have "relative_to asset (path_parent assets_dir) =
      Inr (drop (length (path_parent assets_dir)) asset)"
    by (simp add: relative_to_def)
  with r show ?thesis by (simp add: Let_def)
qed

theorem each_file_recorded_once_witness:
  "check_asset_usage dec_utf8 demo_fs [''site'', ''assets'', ''img'', ''logo.png'']
     [[''site'', ''index.md''], [''site'', ''about.md'']] [] [] [''site'', ''assets''] =
   Inr \<lparr>md = [''index.md'', ''about.md''], liquid = [], scss = []\<rparr> \<and>
   first_match [''assets/img/logo.png'', ''logo.png'', ''logo'']
     ''![Logo](assets/img/logo.png) and OLD.png'' \<and>
   (\<exists>rel. relative_to [''site'', ''assets'', ''img'', ''logo.png'']
            (path_parent [''site'', ''assets'']) = Inr rel \<and>
     [''index.md'', ''about.md''] =
       map path_name (filter (matched dec_utf8 demo_fs
         (patterns [''site'', ''assets'', ''img'', ''logo.png''] rel))
         [[''site'', ''index.md''], [''site'', ''about.md'']]))"
proof -
  have h: "check_asset_usage dec_utf8 demo_fs [''site'', ''assets'', ''img'', ''logo.png'']
     [[''site'', ''index.md''], [''site'', ''about.md'']] [] [] [''site'', ''assets''] =
   Inr \<lparr>md = [''index.md'', ''about.md''], liquid = [], scss = []\<rparr>"
    by code_simp
  have m: "first_match [''assets/img/logo.png'', ''logo.png'', ''logo'']
     ''![Logo](assets/img/logo.png) and OLD.png''"
    by code_simp
  from each_file_recorded_once[OF h] h m show ?thesis by auto
qed

subsection \<open>The two partitions\<close>

lemma main_classified:
  assumes "main dec fs root_dir = Inr rep"
  shows "\<forall>a \<in> set (sort (find_all_assets fs (root_dir @ [''assets'']))).
           \<exists>refs. check_asset_usage dec fs a (find_all_md_files fs root_dir)
             (find_all_liquid_files fs root_dir) (find_all_scss_files fs root_dir)
             (root_dir @ [''assets'']) = Inr refs"
    and "used_assets rep =
           map (\<lambda>a. (a, projr (check_asset_usage dec fs a (find_all_md_files fs root_dir)
                  (find_all_liquid_files fs root_dir) (find_all_scss_files fs root_dir)
                  (root_dir @ [''assets'']))))
             (filter (\<lambda>a. has_refs (projr (check_asset_usage dec fs a
                  (find_all_md_files fs root_dir) (find_all_liquid_files fs root_dir)
                  (find_all_scss_files fs root_dir) (root_dir @ [''assets'']))))
                (sort (find_all_assets fs (root_dir @ [''assets'']))))"
    and "unused_assets rep =
           filter (\<lambda>a. \<not> has_refs (projr (check_asset_usage dec fs a
                  (find_all_md_files fs root_dir) (find_all_liquid_files fs root_dir)
                  (find_all_scss_files fs root_dir) (root_dir @ [''assets'']))))
             (sort (find_all_assets fs (root_dir @ [''assets''])))"
  using main_Inr(1)[OF assms(1)]
  by (simp_all add: classify_Inr)

lemma demo_run: "main dec_utf8 demo_fs [''site''] = Inr demo_report"
  by code_simp

text \<open>
  C1. After a run that completes, the used and the unused list together hold the
  enumerated assets, each as often as it was enumerated, and no asset is in both; an
  asset is in the used list, with its reference lists, when one of the three lists is not
  empty, and in the unused list otherwise.
\<close>

theorem used_unused_partition:
  assumes "main dec fs root_dir = Inr rep"
  shows "mset (map fst (used_assets rep)) + mset (unused_assets rep) =
           mset (find_all_assets fs (root_dir @ [''assets''])) \<and>
         set (map fst (used_assets rep)) \<inter> set (unused_assets rep) = {} \<and>
         (\<forall>asset \<in> set (find_all_assets fs (root_dir @ [''assets''])).
            \<exists>refs. check_asset_usage dec fs asset (find_all_md_files fs root_dir)
                      (find_all_liquid_files fs root_dir) (find_all_scss_files fs root_dir)
                      (root_dir @ [''assets'']) = Inr refs \<and>
              (if md refs \<noteq> [] \<or> liquid refs \<noteq> [] \<or> scss refs \<noteq> []
               then (asset, refs) \<in> set (used_assets rep)
               else asset \<in> set (unused_assets rep)))"
proof -
  let ?C = "\<lambda>a. check_asset_usage dec fs a (find_all_md_files fs root_dir)
      (find_all_liquid_files fs root_dir) (find_all_scss_files fs root_dir)
      (root_dir @ [''assets''])"
  let ?xs = "sort (find_all_assets fs (root_dir @ [''assets'']))"
  let ?H = "\<lambda>a. has_refs (projr (?C a))"
  note m = main_classified[OF assms]
  have u: "used_assets rep = map (\<lambda>a. (a, projr (?C a))) (filter ?H ?xs)"
    and n: "unused_assets rep = filter (\<lambda>a. \<not> ?H a) ?xs"
    using m(2,3) by simp_all
  have fu: "map fst (used_assets rep) = filter ?H ?xs"
    by (simp add: u comp_def)
  have "mset (filter ?H ?xs) + mset (filter (\<lambda>a. \<not> ?H a) ?xs) = mset ?xs"
    by simp
  then have one: "mset (map fst (used_assets rep)) + mset (unused_assets rep) =
      mset (find_all_assets fs (root_dir @ [''assets'']))"
    by (simp add: fu n)
  have two: "set (map fst (used_assets rep)) \<inter> set (unused_assets rep) = {}"
    unfolding fu n by auto
  have three: "\<exists>refs. ?C asset = Inr refs \<and>
      (if md refs \<noteq> [] \<or> liquid refs \<noteq> [] \<or> scss refs \<noteq> []
       then (asset, refs) \<in> set (used_assets rep)
       else asset \<in> set (unused_assets rep))"
    if a: "asset \<in> set (find_all_assets fs (root_dir @ [''assets'']))" for asset
  proof -
    from a have ax: "asset \<in> set ?xs" by simp
    with m(1) obtain refs where r: "?C asset = Inr refs" by blast
    then have h: "?H asset \<longleftrightarrow> md refs \<noteq> [] \<or> liquid refs \<noteq> [] \<or> scss refs \<noteq> []"
      by (simp add: has_refs_def)
    have "(asset, refs) \<in> set (used_assets rep)" if "?H asset"
    proof -
      from ax that have "asset \<in> set (filter ?H ?xs)" by simp
      then have "(asset, projr (?C asset)) \<in> set (used_assets rep)"
        unfolding u set_map by (rule image_eqI[where x = asset, OF refl])
      with r show ?thesis by simp
    qed
    moreover have "asset \<in> set (unused_assets rep)" if "\<not> ?H asset"
      using ax that unfolding n by simp
    ultimately show ?thesis using r h by auto
  qed
  from one two three show ?thesis by blast
qed

theorem used_unused_partition_witness:
  "main dec_utf8 demo_fs [''site''] = Inr demo_report \<and>
   mset (map fst (used_assets demo_report)) + mset (unused_assets demo_report) =
     mset [[''site'', ''assets'', ''font.woff''],
           [''site'', ''assets'', ''img'', ''logo.png''],
           [''site'', ''assets'', ''img'', ''old.PNG'']] \<and>
   set (map fst (used_assets demo_report)) \<inter> set (unused_assets demo_report) = {}"
proof -
  have a: "find_all_assets demo_fs ([''site''] @ [''assets'']) =
      [[''site'', ''assets'', ''font.woff''],
       [''site'', ''assets'', ''img'', ''logo.png''],
       [''site'', ''assets'', ''img'', ''old.PNG'']]"
    by code_simp
  note p = used_unused_partition[OF demo_run]
  from p have "mset (map fst (used_assets demo_report)) + mset (unused_assets demo_report) =
      mset (find_all_assets demo_fs ([''site''] @ [''assets'']))"
    by (rule conjunct1)
  moreover from p have
    "set (map fst (used_assets demo_report)) \<inter> set (unused_assets demo_report) = {}"
    by blast
  ultimately show ?thesis
    unfolding a using demo_run by blast
qed

subsection \<open>References found and not found\<close>

lemma checked_refs:
  assumes "main dec fs root_dir = Inr rep"
    and "asset \<in> set (find_all_assets fs (root_dir @ [''assets'']))"
    and "relative_to asset root_dir = Inr rel"
  shows "\<exists>refs.
    check_asset_usage dec fs asset (find_all_md_files fs root_dir)
       (find_all_liquid_files fs root_dir) (find_all_scss_files fs root_dir)
       (root_dir @ [''assets'']) = Inr refs \<and>
    (\<forall>cat. category_refs cat refs =
       map (category_label cat)
         (filter (matched dec fs (patterns asset rel)) (category_files fs root_dir cat))) \<and>
    (has_refs refs \<longrightarrow>
       (asset, refs) \<in> set (used_assets rep) \<and> asset \<notin> set (unused_assets rep)) \<and>
    (\<not> has_refs refs \<longrightarrow>
       asset \<in> set (unused_assets rep) \<and> asset \<notin> fst ` set (used_assets rep))"
proof -
  let ?C = "\<lambda>a. check_asset_usage dec fs a (find_all_md_files fs root_dir)
      (find_all_liquid_files fs root_dir) (find_all_scss_files fs root_dir)
      (root_dir @ [''assets''])"
  let ?xs = "sort (find_all_assets fs (root_dir @ [''assets'']))"
  let ?H = "\<lambda>a. has_refs (projr (?C a))"
  note m = main_classified[OF assms(1)]
  from assms(2) have ax: "asset \<in> set ?xs" by simp
  with m(1) obtain refs where r: "?C asset = Inr refs" by blast
  from assms(3) have rel: "rel = drop (length root_dir) asset"
    by (auto simp: relative_to_def split: if_splits)
  from r have refs: "refs =
      \<lparr>md = map path_name (filter (matched dec fs (patterns asset rel))
              (find_all_md_files fs root_dir)),
       liquid = map rel_name (filter (matched dec fs (patterns asset rel))
              (find_all_liquid_files fs root_dir)),
       scss = map rel_name (filter (matched dec fs (patterns asset rel))
              (find_all_scss_files fs root_dir))\<rparr>"
    by (simp add: check_asset_usage_Inr rel Let_def)
  have cats: "category_refs cat refs =
       map (category_label cat)
         (filter (matched dec fs (patterns asset rel)) (category_files fs root_dir cat))" for cat
    by (cases cat) (simp_all add: refs)
  have fu: "fst ` set (used_assets rep) = set (filter ?H ?xs)"
    unfolding m(2) by (simp add: image_comp comp_def)
  have used: "(asset, refs) \<in> set (used_assets rep) \<and> asset \<notin> set (unused_assets rep)"
    if "has_refs refs"
  proof -
    from that r ax have "asset \<in> set (filter ?H ?xs)" by simp
    then have "(asset, projr (?C asset)) \<in> set (used_assets rep)"
      unfolding m(2) set_map by (rule image_eqI[where x = asset, OF refl])
    moreover from that r have "asset \<notin> set (unused_assets rep)"
      unfolding m(3) by simp
    ultimately show ?thesis using r by simp
  qed
  have unused: "asset \<in> set (unused_assets rep) \<and> asset \<notin> fst ` set (used_assets rep)"
    if "\<not> has_refs refs"
    using that r ax unfolding fu m(3) by simp
  from r cats used unused show ?thesis by blast
qed

text \<open>
  C2. In a run that completes, let a file of the markdown, template or stylesheet
  category contain, as a literal substring, an asset's path relative to the project
  root, its file name or (for an image extension) its stem. Then the asset is in the
  used list and not in the unused one, and the label of the file (its name for
  markdown, its path from the grandparent directory otherwise) is in the reference
  list of that category.
\<close>

theorem literal_reference_marks_used:
  assumes "main dec fs root_dir = Inr rep"
    and "asset \<in> set (find_all_assets fs (root_dir @ [''assets'']))"
    and "relative_to asset root_dir = Inr rel"
    and "f \<in> set (category_files fs root_dir cat)"
    and "read_text dec fs f = Inr content"
    and "sublist (path_str rel) content \<or> sublist (path_name asset) content \<or>
         (lower (path_suffix asset) \<in> set image_suffixes \<and> sublist (path_stem asset) content)"
  shows "\<exists>refs. (asset, refs) \<in> set (used_assets rep) \<and>
           asset \<notin> set (unused_assets rep) \<and>
           category_label cat f \<in> set (category_refs cat refs)"
proof -
  from assms(6) have "\<exists>p \<in> set (patterns asset rel). sublist p content"
    by (auto simp: patterns_def)
  with assms(5) have mt: "matched dec fs (patterns asset rel) f"
    by (auto simp: matched_iff)
  from checked_refs[OF assms(1-3)] obtain refs where
    "check_asset_usage dec fs asset (find_all_md_files fs root_dir)
       (find_all_liquid_files fs root_dir) (find_all_scss_files fs root_dir)
       (root_dir @ [''assets'']) = Inr refs"
    and cats: "\<And>cat. category_refs cat refs =
       map (category_label cat)
         (filter (matched dec fs (patterns asset rel)) (category_files fs root_dir cat))"
    and used: "has_refs refs \<Longrightarrow>
       (asset, refs) \<in> set (used_assets rep) \<and> asset \<notin> set (unused_assets rep)"
    and "\<not> has_refs refs \<Longrightarrow>
       asset \<in> set (unused_assets rep) \<and> asset \<notin> fst ` set (used_assets rep)"
    by blast
  from mt assms(4) have lab: "category_label cat f \<in> set (category_refs cat refs)"
    unfolding cats by simp
  then have "category_refs cat refs \<noteq> []" by auto
  then have "has_refs refs" by (cases cat) (auto simp: has_refs_def)
  with used lab show ?thesis by blast
qed

theorem literal_reference_marks_used_witness:
  "main dec_utf8 demo_fs [''site''] = Inr demo_report \<and>
   [''site'', ''assets'', ''font.woff''] \<in> set (find_all_assets demo_fs ([''site''] @ [''assets''])) \<and>
   relative_to [''site'', ''assets'', ''font.woff''] [''site''] = Inr [''assets'', ''font.woff''] \<and>
   [''site'', ''_sass'', ''base'', ''main.scss''] \<in> set (category_files demo_fs [''site''] Scss) \<and>
   read_text dec_utf8 demo_fs [''site'', ''_sass'', ''base'', ''main.scss''] = Inr ''url(font.woff)'' \<and>
   sublist (path_name [''site'', ''assets'', ''font.woff'']) ''url(font.woff)'' \<and>
   (\<exists>refs. ([''site'', ''assets'', ''font.woff''], refs) \<in> set (used_assets demo_report) \<and>
      [''site'', ''assets'', ''font.woff''] \<notin> set (unused_assets demo_report) \<and>
      ''base/main.scss'' \<in> set (scss refs))"
proof -
  have a: "[''site'', ''assets'', ''font.woff''] \<in>
      set (find_all_assets demo_fs ([''site''] @ [''assets'']))"
    by code_simp
  have r: "relative_to [''site'', ''assets'', ''font.woff''] [''site''] =
      Inr [''assets'', ''font.woff'']"
    by code_simp
  have f: "[''site'', ''_sass'', ''base'', ''main.scss''] \<in>
      set (category_files demo_fs [''site''] Scss)"
    by code_simp
  have c: "read_text dec_utf8 demo_fs [''site'', ''_sass'', ''base'', ''main.scss''] =
      Inr ''url(font.woff)''"
    by code_simp
  have s: "sublist (path_name [''site'', ''assets'', ''font.woff'']) ''url(font.woff)''"
    by code_simp
  have l: "category_label Scss [''site'', ''_sass'', ''base'', ''main.scss''] = ''base/main.scss''"
    by code_simp
  from s have "sublist (path_str [''assets'', ''font.woff'']) ''url(font.woff)'' \<or>
      sublist (path_name [''site'', ''assets'', ''font.woff'']) ''url(font.woff)'' \<or>
      (lower (path_suffix [''site'', ''assets'', ''font.woff'']) \<in> set image_suffixes \<and>
       sublist (path_stem [''site'', ''assets'', ''font.woff'']) ''url(font.woff)'')"
    by blast
  from literal_reference_marks_used[OF demo_run a r f c this] demo_run a r f c s
  show ?thesis unfolding l by simp
qed

text \<open>
  C5. In a run that completes on a snapshot whose directories have distinct entry
  names: an asset none of whose patterns occurs in the text of any markdown, template
  or stylesheet file is in the unused list and not in the used one; every unused asset
  is a regular file, the reported byte total is the sum of the sizes of the assets of
  the unused list, and the reported count is the length of that list.
\<close>

theorem unreferenced_is_unused:
  assumes "main dec fs root_dir = Inr rep" and "wf_node fs"
  shows "(asset \<in> set (find_all_assets fs (root_dir @ [''assets''])) \<and>
          relative_to asset root_dir = Inr rel \<and>
          (\<forall>cat. \<forall>f \<in> set (category_files fs root_dir cat). \<forall>c.
             read_text dec fs f = Inr c \<longrightarrow> (\<forall>p \<in> set (patterns asset rel). \<not> sublist p c))
          \<longrightarrow> asset \<in> set (unused_assets rep) \<and> asset \<notin> fst ` set (used_assets rep)) \<and>
         (\<forall>a \<in> set (unused_assets rep). \<exists>r. lookup fs a = Some (File r (file_bytes fs a))) \<and>
         snd (total_unused rep) =
           sum_list (map (\<lambda>a. length (file_bytes fs a)) (unused_assets rep)) \<and>
         fst (total_unused rep) = length (unused_assets rep)"
proof -
  have one: "asset \<in> set (unused_assets rep) \<and> asset \<notin> fst ` set (used_assets rep)"
    if a: "asset \<in> set (find_all_assets fs (root_dir @ [''assets'']))"
      and r: "relative_to asset root_dir = Inr rel"
      and no: "\<forall>cat. \<forall>f \<in> set (category_files fs root_dir cat). \<forall>c.
             read_text dec fs f = Inr c \<longrightarrow> (\<forall>p \<in> set (patterns asset rel). \<not> sublist p c)"
  proof -
    from checked_refs[OF assms(1) a r] obtain refs where
      "check_asset_usage dec fs asset (find_all_md_files fs root_dir)
         (find_all_liquid_files fs root_dir) (find_all_scss_files fs root_dir)
         (root_dir @ [''assets'']) = Inr refs"
      and cats: "\<And>cat. category_refs cat refs =
         map (category_label cat)
           (filter (matched dec fs (patterns asset rel)) (category_files fs root_dir cat))"
      and "has_refs refs \<Longrightarrow>
         (asset, refs) \<in> set (used_assets rep) \<and> asset \<notin> set (unused_assets rep)"
      and unused: "\<not> has_refs refs \<Longrightarrow>
         asset \<in> set (unused_assets rep) \<and> asset \<notin> fst ` set (used_assets rep)"
      by blast
    from no have "filter (matched dec fs (patterns asset rel)) (category_files fs root_dir cat) = []"
      for cat
      by (auto simp: matched_iff filter_empty_conv)
    with cats have "category_refs cat refs = []" for cat by simp
    from this[of Md] this[of Liquid] this[of Scss] have "\<not> has_refs refs"
      by (simp add: has_refs_def)
    with unused show ?thesis by simp
  qed
  have sub: "set (unused_assets rep) \<subseteq> set (find_all_assets fs (root_dir @ [''assets'']))"
    unfolding main_classified(3)[OF assms(1)] by auto
  have two: "\<exists>r. lookup fs a = Some (File r (file_bytes fs a))"
    if "a \<in> set (unused_assets rep)" for a
  proof -
    from that sub have "a \<in> set (find_all_assets fs (root_dir @ [''assets'']))" by auto
    from find_all_assets_regular[OF assms(2) this] show ?thesis
      by (auto simp: file_bytes_def)
  qed
  have sz: "projr (st_size fs a) = length (file_bytes fs a)"
    if "a \<in> set (unused_assets rep)" for a
    using two[OF that] st_size_regular[of fs a] by auto
  from main_Inr(2)[OF assms(1)] have
    "snd (total_unused rep) = sum_list (map (\<lambda>a. projr (st_size fs a)) (unused_assets rep))"
    by (simp add: unused_report_Inr)
  also have "\<dots> = sum_list (map (\<lambda>a. length (file_bytes fs a)) (unused_assets rep))"
    using sz by (simp cong: map_cong)
  finally have three: "snd (total_unused rep) =
      sum_list (map (\<lambda>a. length (file_bytes fs a)) (unused_assets rep))" .
  from one two three main_Inr(3)[OF assms(1)] show ?thesis by blast
qed

theorem unreferenced_is_unused_witness:
  "main dec_utf8 demo_fs [''site''] = Inr demo_report \<and> wf_node demo_fs \<and>
   [''site'', ''assets'', ''img'', ''old.PNG''] \<in> set (unused_assets demo_report) \<and>
   [''site'', ''assets'', ''img'', ''old.PNG''] \<notin> fst ` set (used_assets demo_report) \<and>
   snd (total_unused demo_report) =
     sum_list (map (\<lambda>a. length (file_bytes demo_fs a)) (unused_assets demo_report)) \<and>
   total_unused demo_report = (1, 5)"
proof -
  let ?old = "[''site'', ''assets'', ''img'', ''old.PNG'']"
  let ?rel = "[''assets'', ''img'', ''old.PNG'']"
  have w: "wf_node demo_fs" by code_simp
  have a: "?old \<in> set (find_all_assets demo_fs ([''site''] @ [''assets'']))"
    by code_simp
  have r: "relative_to ?old [''site''] = Inr ?rel"
    by code_simp
  have "\<forall>f \<in> set (find_all_md_files demo_fs [''site'']) \<union>
        set (find_all_liquid_files demo_fs [''site'']) \<union>
        set (find_all_scss_files demo_fs [''site'']).
      \<not> matched dec_utf8 demo_fs (patterns ?old ?rel) f"
    by code_simp
  then have "\<forall>cat. \<forall>f \<in> set (category_files demo_fs [''site''] cat).
      \<not> matched dec_utf8 demo_fs (patterns ?old ?rel) f"
    by (simp only: category_files_cases)
  then have no: "\<forall>cat. \<forall>f \<in> set (category_files demo_fs [''site''] cat). \<forall>c.
      read_text dec_utf8 demo_fs f = Inr c \<longrightarrow> (\<forall>p \<in> set (patterns ?old ?rel). \<not> sublist p c)"
    by (auto simp: matched_iff)
  have t: "total_unused demo_report = (1, 5)"
    by code_simp
  note u = unreferenced_is_unused[OF demo_run w, of ?old ?rel]
  from u a r no have "?old \<in> set (unused_assets demo_report) \<and>
      ?old \<notin> fst ` set (used_assets demo_report)"
    by blast
  moreover from u have "snd (total_unused demo_report) =
     sum_list (map (\<lambda>a. length (file_bytes demo_fs a)) (unused_assets demo_report))"
    by blast
  ultimately show ?thesis using demo_run w t by blast
qed

subsection \<open>Missing directories\<close>

lemma glob_under_missing:
  "lookup fs (root_dir @ [sub]) = None \<Longrightarrow> glob_under fs root_dir sub ext = []"
  by (simp add: glob_under_def)

lemma main_no_assets:
  assumes "find_all_assets fs (root_dir @ [''assets'']) = []"
  shows "main dec fs root_dir =
     Inr \<lparr>found = (0, length (find_all_md_files fs root_dir),
                   length (find_all_liquid_files fs root_dir),
                   length (find_all_scss_files fs root_dir)),
          used_assets = [], unused_assets = [], used_lines = [], unused_lines = [],
          total_unused = (0, 0), total_used = 0\<rparr>"
  by (simp add: main_def assms)

lemma used_refs_checked:
  assumes "main dec fs root_dir = Inr rep" and "x \<in> set (used_assets rep)"
  shows "check_asset_usage dec fs (fst x) (find_all_md_files fs root_dir)
           (find_all_liquid_files fs root_dir) (find_all_scss_files fs root_dir)
           (root_dir @ [''assets'']) = Inr (snd x)"
proof -
  note m = main_classified[OF assms(1)]
  from assms(2) obtain a where
    a: "a \<in> set (sort (find_all_assets fs (root_dir @ [''assets''])))"
    and x: "x = (a, projr (check_asset_usage dec fs a (find_all_md_files fs root_dir)
           (find_all_liquid_files fs root_dir) (find_all_scss_files fs root_dir)
           (root_dir @ [''assets''])))"
    unfolding m(2) by auto
  from m(1) a obtain refs where "check_asset_usage dec fs a (find_all_md_files fs root_dir)
           (find_all_liquid_files fs root_dir) (find_all_scss_files fs root_dir)
           (root_dir @ [''assets'']) = Inr refs"
    by blast
  then show ?thesis by (simp add: x)
qed

text \<open>
  C7. A missing directory raises nothing. Without \<open>assets\<close> no asset is enumerated and
  the run reports empty partitions and zero totals; without \<open>_includes\<close> or \<open>_layouts\<close>
  the templates are those of the other directory, and none without both; without
  \<open>_sass\<close> there is no stylesheet. A run that completes without the template
  directories, or without \<open>_sass\<close>, has no reference of that category.
\<close>

theorem missing_directory_is_empty:
  "(lookup fs (root_dir @ [''assets'']) = None \<longrightarrow>
      find_all_assets fs (root_dir @ [''assets'']) = [] \<and>
      main dec fs root_dir =
        Inr \<lparr>found = (0, length (find_all_md_files fs root_dir),
                      length (find_all_liquid_files fs root_dir),
                      length (find_all_scss_files fs root_dir)),
             used_assets = [], unused_assets = [], used_lines = [], unused_lines = [],
             total_unused = (0, 0), total_used = 0\<rparr>) \<and>
   (lookup fs (root_dir @ [''_includes'']) = None \<longrightarrow>
      find_all_liquid_files fs root_dir = glob_under fs root_dir ''_layouts'' ''.liquid'') \<and>
   (lookup fs (root_dir @ [''_layouts'']) = None \<longrightarrow>
      find_all_liquid_files fs root_dir = glob_under fs root_dir ''_includes'' ''.liquid'') \<and>
   (lookup fs (root_dir @ [''_includes'']) = None \<and> lookup fs (root_dir @ [''_layouts'']) = None \<longrightarrow>
      find_all_liquid_files fs root_dir = []) \<and>
   (lookup fs (root_dir @ [''_sass'']) = None \<longrightarrow> find_all_scss_files fs root_dir = []) \<and>
   (lookup fs (root_dir @ [''_includes'']) = None \<and> lookup fs (root_dir @ [''_layouts'']) = None \<and>
      main dec fs root_dir = Inr rep \<longrightarrow>
      (\<forall>x \<in> set (used_assets rep). liquid (snd x) = [])) \<and>
   (lookup fs (root_dir @ [''_sass'']) = None \<and> main dec fs root_dir = Inr rep \<longrightarrow>
      (\<forall>x \<in> set (used_assets rep). scss (snd x) = []))"
proof -
  have a: "find_all_assets fs (root_dir @ [''assets'']) = []"
    if "lookup fs (root_dir @ [''assets'']) = None"
    using that by (simp add: find_all_assets_def)
  have l: "find_all_liquid_files fs root_dir = []"
    if "lookup fs (root_dir @ [''_includes'']) = None" "lookup fs (root_dir @ [''_layouts'']) = None"
    using that by (simp add: find_all_liquid_files_def glob_under_missing)
  have s: "find_all_scss_files fs root_dir = []"
    if "lookup fs (root_dir @ [''_sass'']) = None"
    using that by (simp add: find_all_scss_files_def glob_under_missing)
  have lr: "liquid (snd x) = []"
    if "lookup fs (root_dir @ [''_includes'']) = None" "lookup fs (root_dir @ [''_layouts'']) = None"
      "main dec fs root_dir = Inr rep" "x \<in> set (used_assets rep)" for x
    using used_refs_checked[OF that(3,4)] unfolding l[OF that(1,2)]
    by (simp add: check_asset_usage_Inr Let_def)
  have sr: "scss (snd x) = []"
    if "lookup fs (root_dir @ [''_sass'']) = None"
      "main dec fs root_dir = Inr rep" "x \<in> set (used_assets rep)" for x
    using used_refs_checked[OF that(2,3)] unfolding s[OF that(1)]
    by (simp add: check_asset_usage_Inr Let_def)
  from a l s lr sr main_no_assets[of fs root_dir dec] show ?thesis
    by (simp add: find_all_liquid_files_def glob_under_missing)
qed

theorem missing_directory_is_empty_witness:
  "lookup bare_fs ([''site''] @ [''assets'']) = None \<and>
   lookup bare_fs ([''site''] @ [''_includes'']) = None \<and>
   lookup bare_fs ([''site''] @ [''_layouts'']) = None \<and>
   lookup bare_fs ([''site''] @ [''_sass'']) = None \<and>
   find_all_assets bare_fs ([''site''] @ [''assets'']) = [] \<and>
   find_all_liquid_files bare_fs [''site''] = [] \<and>
   find_all_scss_files bare_fs [''site''] = [] \<and>
   main dec_utf8 bare_fs [''site''] =
     Inr \<lparr>found = (0, 1, 0, 0),
          used_assets = [], unused_assets = [], used_lines = [], unused_lines = [],
          total_unused = (0, 0), total_used = 0\<rparr> \<and>
   lookup demo_fs ([''site''] @ [''_layouts'']) = None \<and>
   find_all_liquid_files demo_fs [''site''] = [[''site'', ''_includes'', ''head'', ''meta.liquid'']] \<and>
   lookup plain_fs ([''site''] @ [''_includes'']) = None \<and>
   lookup plain_fs ([''site''] @ [''_layouts'']) = None \<and>
   lookup plain_fs ([''site''] @ [''_sass'']) = None \<and>
   main dec_utf8 plain_fs [''site''] =
     Inr \<lparr>found = (1, 1, 0, 0),
          used_assets = [([''site'', ''assets'', ''a.txt''],
                          \<lparr>md = [''index.md''], liquid = [], scss = []\<rparr>)],
          unused_assets = [],
          used_lines = [([''a.txt''], [(''md'', [''index.md''])])],
          unused_lines = [],
          total_unused = (0, 0), total_used = 1\<rparr>"
proof -
  let ?rep = "\<lparr>found = (1, 1, 0, 0),
          used_assets = [([''site'', ''assets'', ''a.txt''],
                          \<lparr>md = [''index.md''], liquid = [], scss = []\<rparr>)],
          unused_assets = [],
          used_lines = [([''a.txt''], [(''md'', [''index.md''])])],
          unused_lines = [],
          total_unused = (0::nat, 0::nat), total_used = 1\<rparr>"
  have b: "lookup bare_fs ([''site''] @ [''assets'']) = None"
    "lookup bare_fs ([''site''] @ [''_includes'']) = None"
    "lookup bare_fs ([''site''] @ [''_layouts'']) = None"
    "lookup bare_fs ([''site''] @ [''_sass'']) = None"
    by code_simp+
  have n: "length (find_all_md_files bare_fs [''site'']) = 1"
    by code_simp
  have d: "lookup demo_fs ([''site''] @ [''_layouts'']) = None"
    by code_simp
  have g: "glob_under demo_fs [''site''] ''_includes'' ''.liquid'' =
      [[''site'', ''_includes'', ''head'', ''meta.liquid'']]"
    by code_simp
  have p: "lookup plain_fs ([''site''] @ [''_includes'']) = None"
    "lookup plain_fs ([''site''] @ [''_layouts'']) = None"
    "lookup plain_fs ([''site''] @ [''_sass'']) = None"
    by code_simp+
  have pm: "main dec_utf8 plain_fs [''site''] = Inr ?rep"
    by code_simp
  note t1 = missing_directory_is_empty[of bare_fs "[''site'']" dec_utf8]
  note t2 = missing_directory_is_empty[of demo_fs "[''site'']" dec_utf8]
  note t3 = missing_directory_is_empty[of plain_fs "[''site'']" dec_utf8 ?rep]
  from t1 b have "find_all_assets bare_fs ([''site''] @ [''assets'']) = []"
    "find_all_liquid_files bare_fs [''site''] = []"
    "find_all_scss_files bare_fs [''site''] = []"
    "main dec_utf8 bare_fs [''site''] =
        Inr \<lparr>found = (0, length (find_all_md_files bare_fs [''site'']),
                      length (find_all_liquid_files bare_fs [''site'']),
                      length (find_all_scss_files bare_fs [''site''])),
             used_assets = [], unused_assets = [], used_lines = [], unused_lines = [],
             total_unused = (0, 0), total_used = 0\<rparr>"
    by blast+
  moreover from t2 d g have
    "find_all_liquid_files demo_fs [''site''] = [[''site'', ''_includes'', ''head'', ''meta.liquid'']]"
    by simp
  moreover from t3 p pm have "\<forall>x \<in> set (used_assets ?rep). liquid (snd x) = [] \<and> scss (snd x) = []"
    by blast
  ultimately show ?thesis using b d n p pm by simp
qed

subsection \<open>Files that cannot be read, bytes that cannot be decoded\<close>

text \<open>The steps of the decoder: what it keeps, what it drops, where it resumes.\<close>

lemma utf8_keep1: "c < CHR 0x80 \<Longrightarrow> utf8_ignore (c # ys) = c # utf8_ignore ys"
  by (simp add: utf8_ignore.simps(2)[of c ys])

lemma utf8_drop_start:
  "\<not> c < CHR 0x80 \<Longrightarrow> c < CHR 0xC2 \<or> CHR 0xF4 < c \<Longrightarrow> utf8_ignore (c # ys) = utf8_ignore ys"
  by (simp add: utf8_ignore.simps(2)[of c ys])

lemma utf8_end1:
  "\<not> c < CHR 0x80 \<Longrightarrow> \<not> (c < CHR 0xC2 \<or> CHR 0xF4 < c) \<Longrightarrow> utf8_ignore [c] = []"
  by (simp add: utf8_ignore.simps(2)[of c "[]"])

lemma utf8_drop1:
  "\<not> c < CHR 0x80 \<Longrightarrow> \<not> (c < CHR 0xC2 \<or> CHR 0xF4 < c) \<Longrightarrow> \<not> second_ok c c1 \<Longrightarrow>
     utf8_ignore (c # c1 # ys) = utf8_ignore (c1 # ys)"
  by (simp add: utf8_ignore.simps(2)[of c "c1 # ys"])

lemma utf8_keep2:
  "\<not> c < CHR 0x80 \<Longrightarrow> \<not> (c < CHR 0xC2 \<or> CHR 0xF4 < c) \<Longrightarrow> second_ok c c1 \<Longrightarrow>
     c < CHR 0xE0 \<Longrightarrow> utf8_ignore (c # c1 # ys) = c # c1 # utf8_ignore ys"
  by (simp add: utf8_ignore.simps(2)[of c "c1 # ys"])

lemma utf8_end2:
  "\<not> c < CHR 0x80 \<Longrightarrow> \<not> (c < CHR 0xC2 \<or> CHR 0xF4 < c) \<Longrightarrow> second_ok c c1 \<Longrightarrow>
     \<not> c < CHR 0xE0 \<Longrightarrow> utf8_ignore [c, c1] = []"
  by (simp add: utf8_ignore.simps(2)[of c "[c1]"])

lemma utf8_drop2:
  "\<not> c < CHR 0x80 \<Longrightarrow> \<not> (c < CHR 0xC2 \<or> CHR 0xF4 < c) \<Longrightarrow> second_ok c c1 \<Longrightarrow>
     \<not> c < CHR 0xE0 \<Longrightarrow> \<not> continuation c2 \<Longrightarrow>
     utf8_ignore (c # c1 # c2 # ys) = utf8_ignore (c2 # ys)"
  by (simp add: utf8_ignore.simps(2)[of c "c1 # c2 # ys"])

lemma utf8_keep3:
  "\<not> c < CHR 0x80 \<Longrightarrow> \<not> (c < CHR 0xC2 \<or> CHR 0xF4 < c) \<Longrightarrow> second_ok c c1 \<Longrightarrow>
     \<not> c < CHR 0xE0 \<Longrightarrow> continuation c2 \<Longrightarrow> c < CHR 0xF0 \<Longrightarrow>
     utf8_ignore (c # c1 # c2 # ys) = c # c1 # c2 # utf8_ignore ys"
  by (simp add: utf8_ignore.simps(2)[of c "c1 # c2 # ys"])

lemma utf8_end3:
  "\<not> c < CHR 0x80 \<Longrightarrow> \<not> (c < CHR 0xC2 \<or> CHR 0xF4 < c) \<Longrightarrow> second_ok c c1 \<Longrightarrow>
     \<not> c < CHR 0xE0 \<Longrightarrow> continuation c2 \<Longrightarrow> \<not> c < CHR 0xF0 \<Longrightarrow>
     utf8_ignore [c, c1, c2] = []"
  by (simp add: utf8_ignore.simps(2)[of c "[c1, c2]"])

lemma utf8_drop3:
  "\<not> c < CHR 0x80 \<Longrightarrow> \<not> (c < CHR 0xC2 \<or> CHR 0xF4 < c) \<Longrightarrow> second_ok c c1 \<Longrightarrow>
     \<not> c < CHR 0xE0 \<Longrightarrow> continuation c2 \<Longrightarrow> \<not> c < CHR 0xF0 \<Longrightarrow> \<not> continuation c3 \<Longrightarrow>
     utf8_ignore (c # c1 # c2 # c3 # ys) = utf8_ignore (c3 # ys)"
  by (simp add: utf8_ignore.simps(2)[of c "c1 # c2 # c3 # ys"])

lemma utf8_keep4:
  "\<not> c < CHR 0x80 \<Longrightarrow> \<not> (c < CHR 0xC2 \<or> CHR 0xF4 < c) \<Longrightarrow> second_ok c c1 \<Longrightarrow>
     \<not> c < CHR 0xE0 \<Longrightarrow> continuation c2 \<Longrightarrow> \<not> c < CHR 0xF0 \<Longrightarrow> continuation c3 \<Longrightarrow>
     utf8_ignore (c # c1 # c2 # c3 # ys) = c # c1 # c2 # c3 # utf8_ignore ys"
  by (simp add: utf8_ignore.simps(2)[of c "c1 # c2 # c3 # ys"])

text \<open>
  One step on a non-empty input \<open>p @ t\<close>: the bytes \<open>p\<close> are dropped and decoding goes
  on with \<open>t\<close>, or \<open>p\<close> is a well-formed sequence, kept in front of whatever follows.
\<close>

lemma utf8_ignore_step:
  assumes "b \<noteq> []"
  shows "\<exists>p t. b = p @ t \<and> p \<noteq> [] \<and>
           (utf8_ignore b = utf8_ignore t \<or> (\<forall>ys. utf8_ignore (p @ ys) = p @ utf8_ignore ys))"
proof -
  from assms obtain c bs where b: "b = c # bs" by (cases b) auto
  have drop: ?thesis if "utf8_ignore b = utf8_ignore t" "b = p @ t" "p \<noteq> []" for p t
    using that by blast
  have keep: ?thesis if "\<forall>ys. utf8_ignore (p @ ys) = p @ utf8_ignore ys" "b = p @ t" "p \<noteq> []" for p t
    using that by blast
  show ?thesis
  proof (cases "c < CHR 0x80")
    case True
    show ?thesis
      by (rule keep[of "[c]" bs]) (simp_all add: b utf8_keep1[OF True])
  next
    case a: False
    show ?thesis
    proof (cases "c < CHR 0xC2 \<or> CHR 0xF4 < c")
      case True
      show ?thesis
        by (rule drop[of bs "[c]"]) (simp_all add: b utf8_drop_start[OF a True])
    next
      case l: False
      show ?thesis
      proof (cases bs)
        case Nil
        show ?thesis
          by (rule drop[of "[]" "[c]"]) (simp_all add: b Nil utf8_end1[OF a l])
      next
        case bs: (Cons c1 bs1)
        show ?thesis
        proof (cases "second_ok c c1")
          case False
          show ?thesis
            by (rule drop[of bs "[c]"]) (simp_all add: b bs utf8_drop1[OF a l False])
        next
          case s: True
          show ?thesis
          proof (cases "c < CHR 0xE0")
            case True
            show ?thesis
              by (rule keep[of "[c, c1]" bs1]) (simp_all add: b bs utf8_keep2[OF a l s True])
          next
            case e: False
            show ?thesis
            proof (cases bs1)
              case Nil
              show ?thesis
                by (rule drop[of "[]" "[c, c1]"]) (simp_all add: b bs Nil utf8_end2[OF a l s e])
            next
              case bs1: (Cons c2 bs2)
              show ?thesis
              proof (cases "continuation c2")
                case False
                show ?thesis
                  by (rule drop[of bs1 "[c, c1]"])
                    (simp_all add: b bs bs1 utf8_drop2[OF a l s e False])
              next
                case k2: True
                show ?thesis
                proof (cases "c < CHR 0xF0")
                  case True
                  show ?thesis
                    by (rule keep[of "[c, c1, c2]" bs2])
                      (simp_all add: b bs bs1 utf8_keep3[OF a l s e k2 True])
                next
                  case f: False
                  show ?thesis
                  proof (cases bs2)
                    case Nil
                    show ?thesis
                      by (rule drop[of "[]" "[c, c1, c2]"])
                        (simp_all add: b bs bs1 Nil utf8_end3[OF a l s e k2 f])
                  next
                    case bs2: (Cons c3 bs3)
                    show ?thesis
                    proof (cases "continuation c3")
                      case False
                      show ?thesis
                        by (rule drop[of bs2 "[c, c1, c2]"])
                          (simp_all add: b bs bs1 bs2 utf8_drop3[OF a l s e k2 f False])
                    next
                      case True
                      show ?thesis
                        by (rule keep[of "[c, c1, c2, c3]" bs3])
                          (simp_all add: b bs bs1 bs2 utf8_keep4[OF a l s e k2 f True])
                    qed
                  qed
                qed
              qed
            qed
          qed
        qed
      qed
    qed
  qed
qed

lemma utf8_ignore_subseq: "subseq (utf8_ignore b) b"
proof (induction b rule: length_induct)
  case (1 b)
  show ?case
  proof (cases "b = []")
    case True
    then show ?thesis by simp
  next
    case False
    from utf8_ignore_step[OF False] obtain p t where
      pt: "b = p @ t" "p \<noteq> []"
      and step: "utf8_ignore b = utf8_ignore t \<or> (\<forall>ys. utf8_ignore (p @ ys) = p @ utf8_ignore ys)"
      by blast
    from pt have "length t < length b" by simp
    with 1 have t: "subseq (utf8_ignore t) t" by blast
    from step show ?thesis
    proof
      assume "utf8_ignore b = utf8_ignore t"
      moreover from t have "subseq (utf8_ignore t) (p @ t)" by (rule subseq_drop_many)
      ultimately show ?thesis unfolding pt(1) by simp
    next
      assume "\<forall>ys. utf8_ignore (p @ ys) = p @ utf8_ignore ys"
      then have "utf8_ignore b = p @ utf8_ignore t" unfolding pt(1) by blast
      moreover from t have "subseq (p @ utf8_ignore t) (p @ t)"
        by (simp add: subseq_append')
      ultimately show ?thesis unfolding pt(1) by simp
    qed
  qed
qed

lemma utf8_ignore_idem: "utf8_ignore (utf8_ignore b) = utf8_ignore b"
proof (induction b rule: length_induct)
  case (1 b)
  show ?case
  proof (cases "b = []")
    case True
    then show ?thesis by simp
  next
    case False
    from utf8_ignore_step[OF False] obtain p t where
      pt: "b = p @ t" "p \<noteq> []"
      and step: "utf8_ignore b = utf8_ignore t \<or> (\<forall>ys. utf8_ignore (p @ ys) = p @ utf8_ignore ys)"
      by blast
    from pt have "length t < length b" by simp
    with 1 have t: "utf8_ignore (utf8_ignore t) = utf8_ignore t" by blast
    from step show ?thesis
    proof
      assume "utf8_ignore b = utf8_ignore t"
      with t show ?thesis by simp
    next
      assume k: "\<forall>ys. utf8_ignore (p @ ys) = p @ utf8_ignore ys"
      then have "utf8_ignore b = p @ utf8_ignore t" unfolding pt(1) by blast
      moreover from k have "utf8_ignore (p @ utf8_ignore t) = p @ utf8_ignore (utf8_ignore t)"
        by blast
      ultimately show ?thesis using t by simp
    qed
  qed
qed

lemma utf8_ignore_ascii:
  "\<forall>x \<in> set xs. x < CHR 0x80 \<Longrightarrow> utf8_ignore (xs @ ys) = xs @ utf8_ignore ys"
  by (induction xs) (simp_all add: utf8_keep1)

lemma read_text_bytes: "readable fs f \<Longrightarrow> read_text dec fs f = Inr (dec (file_bytes fs f))"
  by (auto simp: readable_def read_text_def file_bytes_def split: option.splits node.splits)

text \<open>
  C8, as stated, fails: a markdown file without read permission, or a directory whose
  name ends in \<open>.md\<close>, is enumerated, is not skipped, and ends the run with the error
  of \<open>read_text\<close>.
\<close>

theorem unreadable_file_ends_run:
  "[''site'', ''notes.md''] \<in> set (find_all_md_files locked_fs [''site'']) \<and>
   \<not> readable locked_fs [''site'', ''notes.md''] \<and>
   main dec_utf8 locked_fs [''site''] = Inl PermissionError \<and>
   [''site'', ''drafts.md''] \<in> set (find_all_md_files dirmd_fs [''site'']) \<and>
   \<not> readable dirmd_fs [''site'', ''drafts.md''] \<and>
   main dec_utf8 dirmd_fs [''site''] = Inl IsADirectoryError"
  by code_simp

lemma scan_unreadable:
  "g \<in> set files \<Longrightarrow> \<not> readable fs g \<Longrightarrow> \<exists>e. scan dec fs label pats files acc = Inl e"
proof (induction files arbitrary: acc)
  case Nil
  then show ?case by simp
next
  case (Cons f files)
  show ?case
  proof (cases "read_text dec fs f")
    case (Inl e)
    then show ?thesis by simp
  next
    case (Inr content)
    then have "readable fs f" using read_text_readable[of dec fs f] by auto
    with Cons.prems have g: "g \<in> set files" by auto
    show ?thesis
    proof (cases "first_match pats content")
      case False
      with Inr Cons.IH[OF g Cons.prems(2), of acc] show ?thesis by simp
    next
      case True
      show ?thesis
      proof (cases "label f")
        case (Inl e)
        with Inr True show ?thesis by simp
      next
        case l: (Inr l)
        with Inr True Cons.IH[OF g Cons.prems(2), of "acc @ [l]"] show ?thesis by simp
      qed
    qed
  qed
qed

lemma main_unreadable:
  assumes "g \<in> set (category_files fs root_dir cat)" and "\<not> readable fs g"
    and "find_all_assets fs (root_dir @ [''assets'']) \<noteq> []"
  shows "\<exists>e. main dec fs root_dir = Inl e"
proof (cases "main dec fs root_dir")
  case (Inl e)
  then show ?thesis by simp
next
  case (Inr rep)
  from assms(3) obtain a where "a \<in> set (find_all_assets fs (root_dir @ [''assets'']))"
    by (cases "find_all_assets fs (root_dir @ [''assets''])") auto
  then have a: "a \<in> set (sort (find_all_assets fs (root_dir @ [''assets''])))"
    by simp
  with main_classified(1)[OF Inr] obtain refs where
    "check_asset_usage dec fs a (find_all_md_files fs root_dir)
       (find_all_liquid_files fs root_dir) (find_all_scss_files fs root_dir)
       (root_dir @ [''assets'']) = Inr refs"
    by blast
  then have "\<forall>f \<in> set (find_all_md_files fs root_dir) \<union> set (find_all_liquid_files fs root_dir) \<union>
        set (find_all_scss_files fs root_dir). readable fs f"
    by (simp add: check_asset_usage_Inr)
  then have "\<forall>cat. \<forall>f \<in> set (category_files fs root_dir cat). readable fs f"
    by (simp only: category_files_cases)
  with assms(1,2) show ?thesis by blast
qed

text \<open>
  C8, amended. A source file that can be opened is not skipped and does not fail the
  run: its text is its bytes decoded with the invalid byte sequences dropped (only
  dropped: what is left is a subsequence of the bytes, is well-formed, and keeps the
  ASCII text around an invalid byte) and the line ends normalised; the patterns are
  searched in that text, and the scan goes on with the remaining files. A file that
  cannot be opened is not skipped either: the scan of its category ends with the
  error, and so does the run when there is an asset to check.
\<close>

theorem opened_file_is_decoded_and_scanned:
  "(readable fs f \<longrightarrow>
      read_text dec_utf8 fs f = Inr (universal_newlines (utf8_ignore (file_bytes fs f))) \<and>
      scan dec_utf8 fs label pats (f # files) acc =
        (if first_match pats (universal_newlines (utf8_ignore (file_bytes fs f)))
         then (case label f of
                 Inl e \<Rightarrow> Inl e
               | Inr l \<Rightarrow> scan dec_utf8 fs label pats files (acc @ [l]))
         else scan dec_utf8 fs label pats files acc)) \<and>
   subseq (utf8_ignore b) b \<and>
   utf8_ignore (utf8_ignore b) = utf8_ignore b \<and>
   ((\<forall>x \<in> set xs. x < CHR 0x80) \<and> CHR 0x80 \<le> c \<and> (c < CHR 0xC2 \<or> CHR 0xF4 < c) \<longrightarrow>
      utf8_ignore (xs @ c # ys) = xs @ utf8_ignore ys) \<and>
   (g \<in> set files \<and> \<not> readable fs g \<longrightarrow> (\<exists>e. scan dec fs label pats files acc = Inl e)) \<and>
   (g \<in> set (category_files fs root_dir cat) \<and> \<not> readable fs g \<and>
      find_all_assets fs (root_dir @ [''assets'']) \<noteq> [] \<longrightarrow>
      (\<exists>e. main dec fs root_dir = Inl e))"
proof -
  have one: "read_text dec_utf8 fs f = Inr (universal_newlines (utf8_ignore (file_bytes fs f)))"
    if "readable fs f"
    using read_text_bytes[OF that, of dec_utf8] by (simp add: dec_utf8_def)
  have two: "scan dec_utf8 fs label pats (f # files) acc =
        (if first_match pats (universal_newlines (utf8_ignore (file_bytes fs f)))
         then (case label f of
                 Inl e \<Rightarrow> Inl e
               | Inr l \<Rightarrow> scan dec_utf8 fs label pats files (acc @ [l]))
         else scan dec_utf8 fs label pats files acc)"
    if "readable fs f"
    by (simp add: one[OF that])
  have three: "utf8_ignore (xs @ c # ys) = xs @ utf8_ignore ys"
    if "\<forall>x \<in> set xs. x < CHR 0x80" "CHR 0x80 \<le> c" "c < CHR 0xC2 \<or> CHR 0xF4 < c"
  proof -
    from that(2) have "\<not> c < CHR 0x80" by simp
    from utf8_drop_start[OF this that(3)] utf8_ignore_ascii[OF that(1)] show ?thesis
      by simp
  qed
  from one two three utf8_ignore_subseq[of b] utf8_ignore_idem[of b]
    scan_unreadable[of g files fs dec label pats acc]
    main_unreadable[of g fs root_dir cat dec]
  show ?thesis by blast
qed

theorem opened_file_is_decoded_and_scanned_witness:
  "readable demo_fs [''site'', ''about.md''] \<and>
   file_bytes demo_fs [''site'', ''about.md''] = ''lo'' @ CHR 0xFF # ''go'' \<and>
   utf8_ignore (''lo'' @ CHR 0xFF # ''go'') = ''logo'' \<and>
   read_text dec_utf8 demo_fs [''site'', ''about.md''] = Inr ''logo'' \<and>
   scan dec_utf8 demo_fs md_label [''logo''] [[''site'', ''about.md'']] [] = Inr [''about.md''] \<and>
   [''site'', ''notes.md''] \<in> set (category_files locked_fs [''site''] Md) \<and>
   \<not> readable locked_fs [''site'', ''notes.md''] \<and>
   find_all_assets locked_fs ([''site''] @ [''assets'']) \<noteq> [] \<and>
   (\<exists>e. scan dec_utf8 locked_fs md_label [''a.txt''] (category_files locked_fs [''site''] Md) [] =
          Inl e) \<and>
   (\<exists>e. main dec_utf8 locked_fs [''site''] = Inl e)"
proof -
  let ?f = "[''site'', ''about.md'']"
  let ?g = "[''site'', ''notes.md'']"
  have r: "readable demo_fs ?f" by code_simp
  have b: "file_bytes demo_fs ?f = ''lo'' @ CHR 0xFF # ''go''" by code_simp
  have x: "\<forall>x \<in> set ''lo''. x < CHR 0x80" "CHR 0x80 \<le> CHR 0xFF"
    "CHR 0xFF < CHR 0xC2 \<or> CHR 0xF4 < CHR 0xFF"
    by code_simp+
  have go: "utf8_ignore ''go'' = ''go''" by code_simp
  have nl: "universal_newlines ''logo'' = ''logo''" by code_simp
  have fm: "first_match [''logo''] ''logo''" by code_simp
  have lab: "md_label ?f = Inr ''about.md''" by code_simp
  have g: "?g \<in> set (category_files locked_fs [''site''] Md)" by code_simp
  have ng: "\<not> readable locked_fs ?g" by code_simp
  have na: "find_all_assets locked_fs ([''site''] @ [''assets'']) \<noteq> []" by code_simp
  note t = opened_file_is_decoded_and_scanned[where fs = demo_fs and f = ?f
      and label = md_label and pats = "[''logo'']" and files = "[]" and acc = "[]"
      and b = "''lo'' @ CHR 0xFF # ''go''" and xs = "''lo''" and c = "CHR 0xFF"
      and ys = "''go''"]
  note u = opened_file_is_decoded_and_scanned[where fs = locked_fs and g = ?g
      and label = md_label and pats = "[''a.txt'']"
      and files = "category_files locked_fs [''site''] Md" and acc = "[]"
      and dec = dec_utf8 and root_dir = "[''site'']" and cat = Md]
  from t x have "utf8_ignore (''lo'' @ CHR 0xFF # ''go'') = ''lo'' @ utf8_ignore ''go''"
    by blast
  then have d: "utf8_ignore (''lo'' @ CHR 0xFF # ''go'') = ''logo''"
    unfolding go by simp
  from t r have "read_text dec_utf8 demo_fs ?f =
      Inr (universal_newlines (utf8_ignore (file_bytes demo_fs ?f)))"
    by blast
  then have rt: "read_text dec_utf8 demo_fs ?f = Inr ''logo''"
    unfolding b d nl .
  from t r have "scan dec_utf8 demo_fs md_label [''logo''] (?f # []) [] =
        (if first_match [''logo''] (universal_newlines (utf8_ignore (file_bytes demo_fs ?f)))
         then (case md_label ?f of
                 Inl e \<Rightarrow> Inl e
               | Inr l \<Rightarrow> scan dec_utf8 demo_fs md_label [''logo''] [] ([] @ [l]))
         else scan dec_utf8 demo_fs md_label [''logo''] [] [])"
    by blast
  then have sc: "scan dec_utf8 demo_fs md_label [''logo''] [?f] [] = Inr [''about.md'']"
    unfolding b d nl lab using fm by simp
  from u g ng have e1: "\<exists>e. scan dec_utf8 locked_fs md_label [''a.txt'']
      (category_files locked_fs [''site''] Md) [] = Inl e"
    by blast
  from u g ng na have e2: "\<exists>e. main dec_utf8 locked_fs [''site''] = Inl e"
    by blast
  from r b d rt sc g ng na e1 e2 show ?thesis by blast
qed

subsection \<open>Letter case\<close>

text \<open>
  C9. A file is recorded exactly when its text contains one of the patterns as it is
  spelled: a file that was read and contains none of them, whatever it contains in
  another letter case, adds nothing to the reference list, and the scan goes on with
  the next file.
\<close>

theorem matching_is_case_sensitive:
  "(first_match pats content \<longleftrightarrow> (\<exists>p \<in> set pats. sublist p content)) \<and>
   (read_text dec fs f = Inr content \<and> (\<forall>p \<in> set pats. \<not> sublist p content) \<longrightarrow>
      \<not> matched dec fs pats f \<and>
      scan dec fs label pats (f # files) acc = scan dec fs label pats files acc)"
  by (auto simp: first_match_iff matched_def)

theorem matching_is_case_sensitive_witness:
  "read_text dec_utf8 demo_fs [''site'', ''index.md''] =
     Inr ''![Logo](assets/img/logo.png) and OLD.png'' \<and>
   patterns [''site'', ''assets'', ''img'', ''old.PNG''] [''assets'', ''img'', ''old.PNG''] =
     [''assets/img/old.PNG'', ''/assets/img/old.PNG'', ''old.PNG'', ''old''] \<and>
   sublist (lower ''old.PNG'') (lower ''![Logo](assets/img/logo.png) and OLD.png'') \<and>
   \<not> first_match [''assets/img/old.PNG'', ''/assets/img/old.PNG'', ''old.PNG'', ''old'']
       ''![Logo](assets/img/logo.png) and OLD.png'' \<and>
   scan dec_utf8 demo_fs md_label
     [''assets/img/old.PNG'', ''/assets/img/old.PNG'', ''old.PNG'', ''old'']
     [[''site'', ''index.md'']] [] = Inr [] \<and>
   [''site'', ''assets'', ''img'', ''old.PNG''] \<in> set (unused_assets demo_report)"
proof -
  let ?pats = "[''assets/img/old.PNG'', ''/assets/img/old.PNG'', ''old.PNG'', ''old'']"
  let ?content = "''![Logo](assets/img/logo.png) and OLD.png''"
  have c: "read_text dec_utf8 demo_fs [''site'', ''index.md''] = Inr ?content"
    by code_simp
  have p: "patterns [''site'', ''assets'', ''img'', ''old.PNG''] [''assets'', ''img'', ''old.PNG''] =
      ?pats"
    by code_simp
  have l: "sublist (lower ''old.PNG'') (lower ?content)"
    by code_simp
  have n: "\<forall>p \<in> set ?pats. \<not> sublist p ?content"
    by code_simp
  have u: "[''site'', ''assets'', ''img'', ''old.PNG''] \<in> set (unused_assets demo_report)"
    by code_simp
  note t = matching_is_case_sensitive[of ?pats ?content dec_utf8 demo_fs
      "[''site'', ''index.md'']" md_label "[]" "[]"]
  from t n have "\<not> first_match ?pats ?content" by blast
  moreover from t c n have "scan dec_utf8 demo_fs md_label ?pats [[''site'', ''index.md'']] [] =
      scan dec_utf8 demo_fs md_label ?pats [] []"
    by blast
  then have "scan dec_utf8 demo_fs md_label ?pats [[''site'', ''index.md'']] [] = Inr []"
    by simp
  ultimately show ?thesis using c p l u by blast
qed

subsection \<open>One pattern is enough\<close>

lemma path_str_ends_with_name: "rel \<noteq> [] \<Longrightarrow> suffix (last rel) (path_str rel)"
proof (induction rel rule: path_str.induct)
  case 1
  then show ?case by simp
next
  case (2 c)
  then show ?case by simp
next
  case (3 c v va)
  then have "suffix (last (v # va)) (path_str (v # va))" by simp
  then have "suffix (last (v # va)) (c @ ''/'' @ path_str (v # va))"
    by (simp only: suffix_appendI)
  then show ?case by simp
qed

lemma stem_in_name: "sublist (path_stem asset) (path_name asset)"
  by (simp add: path_stem_def Let_def split: option.splits)

lemma sublist_trans: "sublist xs ys \<Longrightarrow> sublist ys zs \<Longrightarrow> sublist xs zs"
  by (rule sublist_order.order_trans)

lemma first_match_key:
  assumes "strict_prefix root asset"
  shows "first_match (patterns asset (drop (length root) asset)) content =
         first_match [key_pattern asset] content"
proof -
  let ?rel = "drop (length root) asset"
  from assms obtain zs where zs: "asset = root @ zs" "zs \<noteq> []"
    by (auto simp: strict_prefix_def prefix_def)
  then have rel: "?rel \<noteq> []" and name: "path_name asset = last ?rel"
    by (simp_all add: path_name_def)
  from path_str_ends_with_name[OF rel] have
    n1: "sublist (path_name asset) (path_str ?rel)"
    unfolding name by (rule suffix_imp_sublist)
  then have n2: "sublist (path_name asset) (CHR ''/'' # path_str ?rel)"
    by (simp add: sublist_Cons_right)
  have up: "sublist (path_name asset) content"
    if "sublist (path_str ?rel) content \<or> sublist (CHR ''/'' # path_str ?rel) content"
    using that n1 n2 sublist_trans by blast
  have down: "sublist (path_stem asset) content" if "sublist (path_name asset) content"
    using that stem_in_name sublist_trans by blast
  show ?thesis
    using up down by (auto simp: first_match_iff patterns_def key_pattern_def)
qed

lemma scan_same_matches:
  assumes "\<And>content. first_match pats content = first_match pats' content"
  shows "scan dec fs label pats files acc = scan dec fs label pats' files acc"
  by (induction files arbitrary: acc) (simp_all add: assms split: sum.splits)

text \<open>
  C10. For an asset below the project root, and so for every enumerated asset, the
  checker returns what the checker with the single pattern returns (the stem for an
  image extension, the file name otherwise): the same three reference lists, hence the
  same classification, or the same error.
\<close>

theorem single_pattern_equivalent:
  assumes "strict_prefix (path_parent assets_dir) asset \<or>
           asset \<in> set (find_all_assets fs assets_dir)"
  shows "check_asset_usage dec fs asset md_files liquid_files scss_files assets_dir =
         check_asset_usage_key dec fs asset md_files liquid_files scss_files"
proof -
  have sp: "strict_prefix (path_parent assets_dir) asset"
  proof (rule disjE[OF assms])
    assume "asset \<in> set (find_all_assets fs assets_dir)"
    then have "strict_prefix assets_dir asset" by (rule find_all_assets_under)
    moreover have "prefix (path_parent assets_dir) assets_dir"
      by (simp add: path_parent_def prefixeq_butlast)
    ultimately show ?thesis
      by (rule prefix_order.le_less_trans[rotated])
  qed
  then have rel: "relative_to asset (path_parent assets_dir) =
      Inr (drop (length (path_parent assets_dir)) asset)"
    by (simp add: relative_to_def strict_prefix_def)
  have same: "scan dec fs label
        (patterns asset (drop (length (path_parent assets_dir)) asset)) files acc =
      scan dec fs label [key_pattern asset] files acc" for label files acc
    by (rule scan_same_matches) (rule first_match_key[OF sp])
  show ?thesis
    unfolding check_asset_usage_def check_asset_usage_key_def rel sum.case Let_def same ..
qed

theorem single_pattern_equivalent_witness:
  "[''site'', ''assets'', ''img'', ''logo.png''] \<in> set (find_all_assets demo_fs [''site'', ''assets'']) \<and>
   key_pattern [''site'', ''assets'', ''img'', ''logo.png''] = ''logo'' \<and>
   check_asset_usage_key dec_utf8 demo_fs [''site'', ''assets'', ''img'', ''logo.png'']
     [[''site'', ''index.md''], [''site'', ''about.md'']] [] [] =
   Inr \<lparr>md = [''index.md'', ''about.md''], liquid = [], scss = []\<rparr> \<and>
   check_asset_usage dec_utf8 demo_fs [''site'', ''assets'', ''img'', ''logo.png'']
     [[''site'', ''index.md''], [''site'', ''about.md'']] [] [] [''site'', ''assets''] =
   Inr \<lparr>md = [''index.md'', ''about.md''], liquid = [], scss = []\<rparr>"
proof -
  have a: "[''site'', ''assets'', ''img'', ''logo.png''] \<in>
      set (find_all_assets demo_fs [''site'', ''assets''])"
    by code_simp
  have k: "key_pattern [''site'', ''assets'', ''img'', ''logo.png''] = ''logo''"
    by code_simp
  have c: "check_asset_usage_key dec_utf8 demo_fs [''site'', ''assets'', ''img'', ''logo.png'']
     [[''site'', ''index.md''], [''site'', ''about.md'']] [] [] =
   Inr \<lparr>md = [''index.md'', ''about.md''], liquid = [], scss = []\<rparr>"
    by code_simp
  from a have "strict_prefix (path_parent [''site'', ''assets'']) [''site'', ''assets'', ''img'', ''logo.png''] \<or>
      [''site'', ''assets'', ''img'', ''logo.png''] \<in> set (find_all_assets demo_fs [''site'', ''assets''])"
    by (rule disjI2)
  from single_pattern_equivalent[OF this, of dec_utf8
      "[[''site'', ''index.md''], [''site'', ''about.md'']]" "[]" "[]"] a k c
  show ?thesis by simp
qed

end
